theory Spec2Isabelle
  imports Main "HOL-Library.Word" "HOL-Library.Char_ord" "HOL-Library.List_Lexorder"
    "HOL-Library.Multiset"
begin

unbundle bit_operations_syntax

section \<open>PixelServe cache layer (src/services/cache.ts, src/config.ts)\<close>

text \<open>
  The development follows \<^verbatim>\<open>src/services/cache.ts\<close>. Time is the value of
  \<^verbatim>\<open>Date.now()\<close>, an integer number of milliseconds, handed to each operation that
  reads the clock. A \<^verbatim>\<open>Buffer\<close> is a list of bytes.
\<close>

type_synonym buffer = "8 word list"

subsection \<open>Configuration (src/config.ts)\<close>

text \<open>
  \<^verbatim>\<open>CacheModeSchema\<close> is the union of the four literals below; \<^verbatim>\<open>Value.Check\<close>
  accepts the raw mode string exactly when it is one of them.
\<close>

datatype CacheMode = disk | memory | hybrid | none

definition CacheModeSchema :: "(string \<times> CacheMode) list" where
  "CacheModeSchema =
     [(''disk'', disk), (''memory'', memory), (''hybrid'', hybrid), (''none'', none)]"

definition checkCacheMode :: "string \<Rightarrow> CacheMode option" where
  "checkCacheMode raw = map_of CacheModeSchema raw"

text \<open>
  A JavaScript number is an IEEE double. Where the cache computes with a number
  (\<^verbatim>\<open>cacheTTL\<close>, \<^verbatim>\<open>maxMemoryCacheItems\<close>, the clock) the value is an integer and the
  model has it as \<open>int\<close> or \<open>nat\<close>. Where the cache only prints a number, inside a
  template literal, the number is a value of a type \<open>'n\<close> that is left open, and
  \<^verbatim>\<open>Number::toString\<close> is a function \<open>numberToString :: 'n \<Rightarrow> string\<close> handed to the
  code that prints: the digits \<^verbatim>\<open>Number::toString\<close> gives a double (the shortest that
  read back as the same double, with an exponent from \<open>10\<^sup>2\<^sup>1\<close> on) are the runtime's
  business.

  One instance is written out, for the examples: the non-negative safe integers, the numbers
  \<open>0\<close> to \<open>2\<^sup>5\<^sup>3 - 1\<close>, which are the 53-bit words and which \<^verbatim>\<open>Number::toString\<close>
  prints as their decimal digits.
\<close>

fun natToString :: "nat \<Rightarrow> string" where
  "natToString n =
     (if n < 10 then [''0123456789'' ! n]
      else natToString (n div 10) @ [''0123456789'' ! (n mod 10)])"

declare natToString.simps [simp del]

type_synonym safe_natural = "53 word"

definition safeNaturalToString :: "safe_natural \<Rightarrow> string" where
  "safeNaturalToString n = natToString (unat n)"

text \<open>
  The fields of \<^verbatim>\<open>config\<close> the cache reads. \<^verbatim>\<open>cacheTTL\<close> and
  \<^verbatim>\<open>browserCacheTTL\<close> are seconds (the schema gives both minimum 0),
  \<^verbatim>\<open>maxMemoryCacheItems\<close> has minimum 1; all three come out of \<^verbatim>\<open>parseInt\<close>.
  \<^verbatim>\<open>browserCacheTTL\<close> is only ever printed. \<^verbatim>\<open>cacheDir\<close> is
  \<^verbatim>\<open>process.env.CACHE_DIR || "./cache"\<close>, so it is never the empty string.
\<close>

record 'n config =
  cacheMode :: CacheMode
  cacheDir :: string
  cacheTTL :: int
  maxMemoryCacheItems :: nat
  browserCacheTTL :: 'n

text \<open>The configuration of a process started with no environment variable set.\<close>

definition defaultConfig :: "safe_natural config" where
  "defaultConfig =
     \<lparr>cacheMode = disk, cacheDir = ''./cache'', cacheTTL = 86400,
      maxMemoryCacheItems = 1000, browserCacheTTL = 31536000\<rparr>"

subsection \<open>The JavaScript Map: keys in insertion order\<close>

text \<open>
  A \<^verbatim>\<open>Map\<close> iterates its keys in insertion order. It is modelled as an association
  list, oldest insertion first, whose keys are distinct. \<^verbatim>\<open>Map.prototype.set\<close> on a key
  that is present replaces the value and leaves the key where it is; on a new key it
  appends. \<^verbatim>\<open>Map.prototype.delete\<close> removes the key.
\<close>

fun Map_set :: "'k \<Rightarrow> 'v \<Rightarrow> ('k \<times> 'v) list \<Rightarrow> ('k \<times> 'v) list" where
  "Map_set k v [] = [(k, v)]"
| "Map_set k v ((k', v') # m) =
     (if k' = k then (k, v) # m else (k', v') # Map_set k v m)"

definition Map_delete :: "'k \<Rightarrow> ('k \<times> 'v) list \<Rightarrow> ('k \<times> 'v) list" where
  "Map_delete k m = filter (\<lambda>p. fst p \<noteq> k) m"

definition Map_get :: "'k \<Rightarrow> ('k \<times> 'v) list \<Rightarrow> 'v option" where
  "Map_get k m = map_of m k"

definition Map_keys :: "('k \<times> 'v) list \<Rightarrow> 'k list" where
  "Map_keys m = map fst m"

subsection \<open>class LRUCache\<close>

record MemoryCacheEntry =
  data :: buffer
  createdAt :: int

type_synonym cache_map = "(string \<times> MemoryCacheEntry) list"

record LRUCache =
  cache :: cache_map
  maxItems :: nat

definition LRUCache_new :: "nat \<Rightarrow> LRUCache" where
  "LRUCache_new n = \<lparr>cache = [], maxItems = n\<rparr>"

text \<open>
  \<^verbatim>\<open>get(key)\<close>: a missing key and an expired entry both give \<^verbatim>\<open>null\<close>
  (\<open>None\<close>); the expired entry is deleted. A hit deletes the key and sets it again, which
  moves it to the end of the Map.
\<close>

definition LRUCache_get ::
  "'n config \<Rightarrow> int \<Rightarrow> string \<Rightarrow> LRUCache \<Rightarrow> buffer option \<times> LRUCache" where
  "LRUCache_get cfg now key c =
     (case Map_get key (cache c) of
        None \<Rightarrow> (None, c)
      | Some entry \<Rightarrow>
          (let age = now - createdAt entry in
           if age > cacheTTL cfg * 1000
           then (None, c\<lparr>cache := Map_delete key (cache c)\<rparr>)
           else (Some (data entry),
                 c\<lparr>cache := Map_set key entry (Map_delete key (cache c))\<rparr>)))"

text \<open>
  The eviction loop of \<^verbatim>\<open>set\<close>: while the Map holds at least \<^verbatim>\<open>maxItems\<close>
  entries, take the first key; a truthy key (a non-empty string) is deleted, anything else
  (\<^verbatim>\<open>undefined\<close> on an empty Map, or the empty string) leaves the loop.
\<close>

function evictOldest :: "nat \<Rightarrow> cache_map \<Rightarrow> cache_map" where
  "evictOldest n m =
     (if length m \<ge> n
      then (case m of
              [] \<Rightarrow> m
            | (firstKey, e) # rest \<Rightarrow>
                if firstKey \<noteq> [] then evictOldest n (Map_delete firstKey m) else m)
      else m)"
  by pat_completeness auto
termination
proof (relation "measure (\<lambda>(n, m). length m)")
  show "wf (measure (\<lambda>(n :: nat, m :: cache_map). length m))" by simp
next
  fix n :: nat and m :: cache_map and x21 x22 firstKey e
  assume "m = x21 # x22" and "(firstKey, e) = x21"
  then have m: "m = (firstKey, e) # x22" by simp
  have "length (Map_delete firstKey m) \<le> length x22"
    unfolding m Map_delete_def by (simp add: le_imp_less_Suc)
  then show "((n, Map_delete firstKey m), (n, m)) \<in> measure (\<lambda>(n, m). length m)"
    unfolding m by simp
qed

declare evictOldest.simps [simp del]

definition LRUCache_set :: "int \<Rightarrow> string \<Rightarrow> buffer \<Rightarrow> LRUCache \<Rightarrow> LRUCache" where
  "LRUCache_set now key d c =
     c\<lparr>cache := Map_set key \<lparr>data = d, createdAt = now\<rparr>
                   (evictOldest (maxItems c) (cache c))\<rparr>"

definition LRUCache_clear :: "LRUCache \<Rightarrow> LRUCache" where
  "LRUCache_clear c = c\<lparr>cache := []\<rparr>"

definition LRUCache_size :: "LRUCache \<Rightarrow> nat" where
  "LRUCache_size c = length (cache c)"

text \<open>\<^verbatim>\<open>cleanup()\<close>: one pass over the entries, deleting the expired ones and counting them.\<close>

definition LRUCache_cleanup :: "'n config \<Rightarrow> int \<Rightarrow> LRUCache \<Rightarrow> nat \<times> LRUCache" where
  "LRUCache_cleanup cfg now c =
     (let ttlMs = cacheTTL cfg * 1000;
          expired = (\<lambda>p. now - createdAt (snd p) > ttlMs)
      in (length (filter expired (cache c)),
          c\<lparr>cache := filter (\<lambda>p. \<not> expired p) (cache c)\<rparr>))"


text \<open>
  The state every entry point of \<^verbatim>\<open>LRUCache\<close> keeps once the cache was built with
  \<^verbatim>\<open>maxItems\<close> at least 1 and is only given cache keys (hex digests, never the empty
  string): distinct non-empty keys, at most \<^verbatim>\<open>maxItems\<close> of them.
\<close>

definition lru_inv :: "LRUCache \<Rightarrow> bool" where
  "lru_inv c \<longleftrightarrow>
     distinct (Map_keys (cache c)) \<and> [] \<notin> set (Map_keys (cache c)) \<and>
     length (cache c) \<le> maxItems c \<and> 1 \<le> maxItems c"

text \<open>A run of \<^verbatim>\<open>set\<close> calls, each with the clock value it reads.\<close>

fun insertAll :: "(int \<times> string \<times> buffer) list \<Rightarrow> LRUCache \<Rightarrow> LRUCache" where
  "insertAll [] c = c"
| "insertAll ((now, key, d) # rest) c = insertAll rest (LRUCache_set now key d c)"

definition insertedKeys :: "(int \<times> string \<times> buffer) list \<Rightarrow> string list" where
  "insertedKeys ins = map (\<lambda>x. fst (snd x)) ins"

subsection \<open>Strings: Array.prototype.join\<close>

text \<open>A string is the list of the bytes of its UTF-8 encoding.\<close>

fun joinWith :: "string \<Rightarrow> string list \<Rightarrow> string" where
  "joinWith sep [] = []"
| "joinWith sep [x] = x"
| "joinWith sep (x # y # ys) = x @ sep @ joinWith sep (y # ys)"

subsection \<open>SHA-256 (createHash("sha256").update(s).digest("hex"))\<close>

text \<open>
  The digest of the runtime is SHA-256 as FIPS 180-4 defines it, applied to the bytes of the
  string and printed as 64 lower-case hexadecimal digits. A 32-bit word is a natural number
  below \<open>2\<^sup>3\<^sup>2\<close>; addition wraps around.
\<close>

definition add32 :: "nat \<Rightarrow> nat \<Rightarrow> nat" where
  "add32 x y = (x + y) mod 4294967296"

definition rotr :: "nat \<Rightarrow> nat \<Rightarrow> nat" where
  "rotr n w = w div 2 ^ n + (w mod 2 ^ n) * 2 ^ (32 - n)"

definition shr :: "nat \<Rightarrow> nat \<Rightarrow> nat" where
  "shr n w = w div 2 ^ n"

definition not32 :: "nat \<Rightarrow> nat" where
  "not32 x = 4294967295 - x"

definition Ch :: "nat \<Rightarrow> nat \<Rightarrow> nat \<Rightarrow> nat" where
  "Ch x y z = (x AND y) XOR (not32 x AND z)"

definition Maj :: "nat \<Rightarrow> nat \<Rightarrow> nat \<Rightarrow> nat" where
  "Maj x y z = (x AND y) XOR (x AND z) XOR (y AND z)"

definition bsig0 :: "nat \<Rightarrow> nat" where
  "bsig0 x = rotr 2 x XOR rotr 13 x XOR rotr 22 x"

definition bsig1 :: "nat \<Rightarrow> nat" where
  "bsig1 x = rotr 6 x XOR rotr 11 x XOR rotr 25 x"

definition ssig0 :: "nat \<Rightarrow> nat" where
  "ssig0 x = rotr 7 x XOR rotr 18 x XOR shr 3 x"

definition ssig1 :: "nat \<Rightarrow> nat" where
  "ssig1 x = rotr 17 x XOR rotr 19 x XOR shr 10 x"

definition K256 :: "nat list" where
  "K256 =
    [0x428A2F98, 0x71374491, 0xB5C0FBCF, 0xE9B5DBA5, 0x3956C25B, 0x59F111F1, 0x923F82A4, 0xAB1C5ED5,
     0xD807AA98, 0x12835B01, 0x243185BE, 0x550C7DC3, 0x72BE5D74, 0x80DEB1FE, 0x9BDC06A7, 0xC19BF174,
     0xE49B69C1, 0xEFBE4786, 0x0FC19DC6, 0x240CA1CC, 0x2DE92C6F, 0x4A7484AA, 0x5CB0A9DC, 0x76F988DA,
     0x983E5152, 0xA831C66D, 0xB00327C8, 0xBF597FC7, 0xC6E00BF3, 0xD5A79147, 0x06CA6351, 0x14292967,
     0x27B70A85, 0x2E1B2138, 0x4D2C6DFC, 0x53380D13, 0x650A7354, 0x766A0ABB, 0x81C2C92E, 0x92722C85,
     0xA2BFE8A1, 0xA81A664B, 0xC24B8B70, 0xC76C51A3, 0xD192E819, 0xD6990624, 0xF40E3585, 0x106AA070,
     0x19A4C116, 0x1E376C08, 0x2748774C, 0x34B0BCB5, 0x391C0CB3, 0x4ED8AA4A, 0x5B9CCA4F, 0x682E6FF3,
     0x748F82EE, 0x78A5636F, 0x84C87814, 0x8CC70208, 0x90BEFFFA, 0xA4506CEB, 0xBEF9A3F7, 0xC67178F2]"

definition H256 :: "nat list" where
  "H256 =
    [0x6A09E667, 0xBB67AE85, 0x3C6EF372, 0xA54FF53A, 0x510E527F, 0x9B05688C, 0x1F83D9AB, 0x5BE0CD19]"

text \<open>
  One round replaces the eight working variables, given \<open>T1\<close> and \<open>T2\<close>. The rounds
  run over the 64 constants; the message schedule is kept as a window of 16 words that moves
  on by one word each round, \<open>W\<^sub>t = ssig1 W\<^sub>t\<^sub>-\<^sub>2 + W\<^sub>t\<^sub>-\<^sub>7 + ssig0 W\<^sub>t\<^sub>-\<^sub>1\<^sub>5 + W\<^sub>t\<^sub>-\<^sub>1\<^sub>6\<close>.
\<close>

fun working :: "nat \<Rightarrow> nat \<Rightarrow> nat list \<Rightarrow> nat list" where
  "working T1 T2 [a, b, c, d, e, f, g, h] = [add32 T1 T2, a, b, c, add32 d T1, e, f, g]"
| "working T1 T2 s = s"

fun rounds :: "nat list \<Rightarrow> nat list \<Rightarrow> nat list \<Rightarrow> nat list" where
  "rounds (k # ks) [w0, w1, w2, w3, w4, w5, w6, w7, w8, w9, w10, w11, w12, w13, w14, w15]
      [a, b, c, d, e, f, g, h] =
     rounds ks [w1, w2, w3, w4, w5, w6, w7, w8, w9, w10, w11, w12, w13, w14, w15,
                add32 (add32 (add32 (ssig1 w14) w9) (ssig0 w1)) w0]
       (working (add32 (add32 (add32 (add32 h (bsig1 e)) (Ch e f g)) k) w0)
                (add32 (bsig0 a) (Maj a b c)) [a, b, c, d, e, f, g, h])"
| "rounds ks ws s = s"

definition compress :: "nat list \<Rightarrow> nat list \<Rightarrow> nat list" where
  "compress hs block = map2 add32 hs (rounds K256 block hs)"

text \<open>
  The message is padded with the byte \<open>0x80\<close>, zero bytes up to 56 modulo 64 and its length
  in bits as 8 bytes, cut into big-endian words and into blocks of 16 words.
\<close>

fun bigEndianWords :: "nat list \<Rightarrow> nat list" where
  "bigEndianWords (a # b # c # d # rest) =
     (((a * 256 + b) * 256 + c) * 256 + d) # bigEndianWords rest"
| "bigEndianWords rest = []"

definition be64 :: "nat \<Rightarrow> nat list" where
  "be64 n = map (\<lambda>i. (n div 256 ^ i) mod 256) [7, 6, 5, 4, 3, 2, 1, 0]"

definition pad :: "nat list \<Rightarrow> nat list" where
  "pad bs =
     bs @ [128] @ replicate ((55 + 64 - length bs mod 64) mod 64) 0 @ be64 (8 * length bs)"

fun blocks :: "nat \<Rightarrow> nat list \<Rightarrow> nat list list" where
  "blocks 0 ws = []"
| "blocks (Suc n) ws = take 16 ws # blocks n (drop 16 ws)"

definition sha256 :: "nat list \<Rightarrow> nat list" where
  "sha256 bs =
     (let ws = bigEndianWords (pad bs)
      in fold (\<lambda>block hs. compress hs block) (blocks (length ws div 16) ws) H256)"

definition hex32 :: "nat \<Rightarrow> string" where
  "hex32 w = map (\<lambda>i. ''0123456789abcdef'' ! ((w div 16 ^ i) mod 16)) [7, 6, 5, 4, 3, 2, 1, 0]"

definition sha256hex :: "string \<Rightarrow> string" where
  "sha256hex s = concat (map hex32 (sha256 (map of_char s)))"

subsection \<open>generateCacheKey\<close>

text \<open>
  \<^verbatim>\<open>params\<close> is a \<^verbatim>\<open>Record<string, string | number | boolean | undefined>\<close>: its
  entries in the order \<^verbatim>\<open>Object.entries\<close> lists them, the field names distinct.
\<close>

datatype 'n param_value = VString string | VNumber 'n | VBoolean bool | VUndefined

type_synonym 'n params = "(string \<times> 'n param_value) list"

text \<open>The string a template literal makes of a value, \<^verbatim>\<open>`${v}`\<close>.\<close>

definition valueToString :: "('n \<Rightarrow> string) \<Rightarrow> 'n param_value \<Rightarrow> string" where
  "valueToString numberToString v =
     (case v of
        VString s \<Rightarrow> s
      | VNumber n \<Rightarrow> numberToString n
      | VBoolean b \<Rightarrow> (if b then ''true'' else ''false'')
      | VUndefined \<Rightarrow> ''undefined'')"

text \<open>
  \<^verbatim>\<open>Array.prototype.sort\<close> with a comparator is a stable sort: an element moves in front of
  another only when the comparator returns a positive number for the pair in their current
  order. For a consistent comparator every stable sort returns the same list; the model is
  the stable insertion sort.
\<close>

fun insertSorted :: "('a \<Rightarrow> 'a \<Rightarrow> int) \<Rightarrow> 'a \<Rightarrow> 'a list \<Rightarrow> 'a list" where
  "insertSorted cmp x [] = [x]"
| "insertSorted cmp x (y # ys) =
     (if cmp x y \<le> 0 then x # y # ys else y # insertSorted cmp x ys)"

definition sortBy :: "('a \<Rightarrow> 'a \<Rightarrow> int) \<Rightarrow> 'a list \<Rightarrow> 'a list" where
  "sortBy cmp xs = foldr (insertSorted cmp) xs []"

text \<open>
  The chain \<^verbatim>\<open>Object.entries(params).filter(...).sort(...)\<close>, then \<^verbatim>\<open>.map(...).join("&")\<close>,
  which is the string \<^verbatim>\<open>filtered\<close> that is hashed. The comparator \<open>cmp\<close> stands for
  \<^verbatim>\<open>(a, b) => a.localeCompare(b)\<close> of the JavaScript runtime and \<open>numberToString\<close> for
  its \<^verbatim>\<open>Number::toString\<close>; both are taken as they come.
\<close>

definition definedEntries :: "'n params \<Rightarrow> 'n params" where
  "definedEntries ps = filter (\<lambda>p. snd p \<noteq> VUndefined) ps"

definition sortedEntries :: "(string \<Rightarrow> string \<Rightarrow> int) \<Rightarrow> 'n params \<Rightarrow> 'n params" where
  "sortedEntries cmp ps = sortBy (\<lambda>p q. cmp (fst p) (fst q)) (definedEntries ps)"

definition entryToString :: "('n \<Rightarrow> string) \<Rightarrow> string \<times> 'n param_value \<Rightarrow> string" where
  "entryToString numberToString p = fst p @ ''='' @ valueToString numberToString (snd p)"

definition filtered ::
  "('n \<Rightarrow> string) \<Rightarrow> (string \<Rightarrow> string \<Rightarrow> int) \<Rightarrow> 'n params \<Rightarrow> string" where
  "filtered numberToString cmp ps =
     joinWith ''&'' (map (entryToString numberToString) (sortedEntries cmp ps))"


text \<open>
  What ECMAScript asks of a comparator for \<^verbatim>\<open>sort\<close> to have a defined result: the sign
  flips with the arguments, and "not after" is transitive.
\<close>

definition consistentComparator :: "('a \<Rightarrow> 'a \<Rightarrow> int) \<Rightarrow> bool" where
  "consistentComparator cmp \<longleftrightarrow>
     (\<forall>a b. (cmp a b < 0) = (cmp b a > 0)) \<and>
     (\<forall>a b c. cmp a b \<le> 0 \<and> cmp b c \<le> 0 \<longrightarrow> cmp a c \<le> 0)"

text \<open>
  The order \<^verbatim>\<open>localeCompare\<close> gives to ASCII names under the default (root, English)
  collation of the runtime. The control characters other than the white space ones are
  ignored. The other characters are compared by position in the collation order: white space,
  then punctuation and symbols in the order written out below, then the digits, then the
  letters without regard to case. Names equal so far are ordered by the first place where the
  case differs, lower case first. Names that differ only in ignored characters compare equal.
  Bytes from \<open>0x80\<close> on (the UTF-8 encoding of the characters beyond ASCII) are put after
  the letters in byte order, with no claim that the runtime agrees there.
\<close>

definition ignorable :: "char \<Rightarrow> bool" where
  "ignorable c \<longleftrightarrow>
     (of_char c :: nat) < 9 \<or> (14 \<le> (of_char c :: nat) \<and> (of_char c :: nat) < 32) \<or>
     (of_char c :: nat) = 127"

definition collationOrder :: string where
  "collationOrder =
     [CHR 0x09, CHR 0x0A, CHR 0x0B, CHR 0x0C, CHR 0x0D, CHR '' '',
      CHR ''_'', CHR ''-'', CHR '','', CHR '';'', CHR '':'', CHR ''!'', CHR ''?'', CHR ''.'',
      CHR 0x27, CHR 0x22, CHR ''('', CHR '')'', CHR ''['', CHR '']'', CHR ''{'', CHR ''}'',
      CHR ''@'', CHR ''*'', CHR ''/'', CHR 0x5C, CHR ''&'', CHR ''#'', CHR ''%'', CHR 0x60,
      CHR ''^'', CHR ''+'', CHR ''<'', CHR ''='', CHR ''>'', CHR ''|'', CHR ''~'', CHR ''$'']
     @ ''0123456789'' @ ''abcdefghijklmnopqrstuvwxyz''"

definition toLower :: "char \<Rightarrow> char" where
  "toLower c =
     (case map_of (zip ''ABCDEFGHIJKLMNOPQRSTUVWXYZ'' ''abcdefghijklmnopqrstuvwxyz'') c of
        Some l \<Rightarrow> l
      | None \<Rightarrow> c)"

fun indexOf :: "'a \<Rightarrow> 'a list \<Rightarrow> nat" where
  "indexOf x [] = 0"
| "indexOf x (y # ys) = (if x = y then 0 else Suc (indexOf x ys))"

definition primaryWeight :: "char \<Rightarrow> nat" where
  "primaryWeight c =
     (if (of_char c :: nat) \<ge> 128 then 1000 + of_char c
      else indexOf (toLower c) collationOrder)"

definition tertiaryWeight :: "char \<Rightarrow> nat" where
  "tertiaryWeight c = (if CHR ''A'' \<le> c \<and> c \<le> CHR ''Z'' then 1 else 0)"

definition collationElements :: "string \<Rightarrow> string" where
  "collationElements a = filter (\<lambda>c. \<not> ignorable c) a"

definition localeCompare :: "string \<Rightarrow> string \<Rightarrow> int" where
  "localeCompare a b =
     (let pa = map primaryWeight (collationElements a);
          pb = map primaryWeight (collationElements b);
          ta = map tertiaryWeight (collationElements a);
          tb = map tertiaryWeight (collationElements b)
      in if pa < pb then - 1 else if pb < pa then 1
         else if ta < tb then - 1 else if tb < ta then 1 else 0)"

subsection \<open>The disk backend\<close>

text \<open>
  The file system holds the regular files by path, each with its bytes and its modification
  time in milliseconds; directories are not recorded, \<^verbatim>\<open>mkdir -p\<close> has nothing to add.
  A file is held under its normalised path, the form in which the cache names it.
\<close>

record file_node =
  content :: buffer
  mtime :: int

type_synonym filesystem = "(string \<times> file_node) list"

text \<open>
  \<^verbatim>\<open>join\<close> of \<^verbatim>\<open>node:path\<close> (POSIX) puts \<^verbatim>\<open>/\<close> between the segments that are not
  empty and normalises the result: empty segments and \<^verbatim>\<open>.\<close> segments go, a \<^verbatim>\<open>..\<close>
  segment takes the segment before it away (or stays, in a relative path, when there is none
  to take), a leading and a trailing \<^verbatim>\<open>/\<close> are kept, and the empty result is \<^verbatim>\<open>.\<close>.
\<close>

fun splitOn :: "char \<Rightarrow> string \<Rightarrow> string list" where
  "splitOn c [] = [[]]"
| "splitOn c (x # xs) =
     (if x = c then [] # splitOn c xs
      else (case splitOn c xs of [] \<Rightarrow> [[x]] | y # ys \<Rightarrow> (x # y) # ys))"

text \<open>The segments kept so far are in \<open>res\<close>, the last one first.\<close>

fun normalizeString :: "bool \<Rightarrow> string list \<Rightarrow> string list \<Rightarrow> string list" where
  "normalizeString allowAboveRoot [] res = rev res"
| "normalizeString allowAboveRoot (seg # segs) res =
     (if seg = [] \<or> seg = ''.'' then normalizeString allowAboveRoot segs res
      else if seg = ''..'' then
        (if res \<noteq> [] \<and> hd res \<noteq> ''..'' then normalizeString allowAboveRoot segs (tl res)
         else if allowAboveRoot then normalizeString allowAboveRoot segs (''..'' # res)
         else normalizeString allowAboveRoot segs res)
      else normalizeString allowAboveRoot segs (seg # res))"

definition isAbsolute :: "string \<Rightarrow> bool" where
  "isAbsolute path \<longleftrightarrow> path \<noteq> [] \<and> hd path = CHR ''/''"

definition normalize :: "string \<Rightarrow> string" where
  "normalize path =
     (if path = [] then ''.''
      else (let trailingSeparator = (last path = CHR ''/'');
                p = joinWith ''/'' (normalizeString (\<not> isAbsolute path) (splitOn CHR ''/'' path) [])
            in if p = [] then (if isAbsolute path then ''/'' else if trailingSeparator then ''./'' else ''.'')
               else (if isAbsolute path then ''/'' else []) @ p @
                    (if trailingSeparator then ''/'' else [])))"

definition join :: "string list \<Rightarrow> string" where
  "join segments =
     (let path = filter (\<lambda>arg. arg \<noteq> []) segments in
      if path = [] then ''.'' else normalize (joinWith ''/'' path))"

definition getCachePath :: "'n config \<Rightarrow> string \<Rightarrow> string" where
  "getCachePath cfg key = (let shard = take 2 key in join [cacheDir cfg, shard, key])"

text \<open>
  What the host does with the calls and commands the cache runs: whether \<^verbatim>\<open>mkdir -p\<close>
  followed by \<^verbatim>\<open>Bun.write\<close> succeeds for a path, whether \<^verbatim>\<open>stat\<close> and the read of
  an existing file succeed, whether \<^verbatim>\<open>rm -f\<close> succeeds for a path, whether \<^verbatim>\<open>find\<close>
  exits normally, and how \<^verbatim>\<open>find\<close> decides \<^verbatim>\<open>-mmin +n\<close> from \<open>n\<close>, the current time
  and a file's modification time (both in milliseconds).
\<close>

record host =
  writeOk :: "string \<Rightarrow> bool"
  readOk :: "string \<Rightarrow> bool"
  rmOk :: "string \<Rightarrow> bool"
  findOk :: bool
  mminPlus :: "int \<Rightarrow> int \<Rightarrow> int \<Rightarrow> bool"

text \<open>
  \<^verbatim>\<open>getDiskCached\<close>: a file younger than the TTL is read; an older one is removed by a
  detached \<^verbatim>\<open>rm -f\<close> whose failure is ignored (the removal is taken to be done when
  the call returns), and the call returns \<^verbatim>\<open>null\<close>. When \<^verbatim>\<open>stat\<close> or the read
  throws, the \<^verbatim>\<open>catch\<close> returns \<^verbatim>\<open>null\<close>.
\<close>

definition getDiskCached ::
  "'n config \<Rightarrow> host \<Rightarrow> int \<Rightarrow> string \<Rightarrow> filesystem \<Rightarrow> buffer option \<times> filesystem" where
  "getDiskCached cfg h now key fs =
     (let path = getCachePath cfg key in
      case Map_get path fs of
        None \<Rightarrow> (None, fs)
      | Some file \<Rightarrow>
          if readOk h path
          then (let age = now - mtime file in
                if age < cacheTTL cfg * 1000 then (Some (content file), fs)
                else (None, if rmOk h path then Map_delete path fs else fs))
          else (None, fs))"

text \<open>
  \<^verbatim>\<open>setDiskCache\<close>: a failed write is logged and swallowed; it is taken to leave the
  files as they were.
\<close>

definition setDiskCache ::
  "'n config \<Rightarrow> host \<Rightarrow> int \<Rightarrow> string \<Rightarrow> buffer \<Rightarrow> filesystem \<Rightarrow> filesystem" where
  "setDiskCache cfg h now key d fs =
     (let path = getCachePath cfg key in
      if writeOk h path then Map_set path \<lparr>content = d, mtime = now\<rparr> fs else fs)"

subsection \<open>The unified cache interface\<close>

record cache_state =
  memoryCache :: LRUCache
  files :: filesystem

definition getCached ::
  "'n config \<Rightarrow> host \<Rightarrow> int \<Rightarrow> string \<Rightarrow> cache_state \<Rightarrow> buffer option \<times> cache_state" where
  "getCached cfg h now key s =
     (case cacheMode cfg of
        disk \<Rightarrow> (let r = getDiskCached cfg h now key (files s) in (fst r, s\<lparr>files := snd r\<rparr>))
      | memory \<Rightarrow>
          (let r = LRUCache_get cfg now key (memoryCache s) in (fst r, s\<lparr>memoryCache := snd r\<rparr>))
      | none \<Rightarrow> (None, s)
      | hybrid \<Rightarrow> (None, s))"

text \<open>The third argument of \<^verbatim>\<open>setCache\<close>, the format, is not used by the source either.\<close>

definition setCache ::
  "'n config \<Rightarrow> host \<Rightarrow> int \<Rightarrow> string \<Rightarrow> buffer \<Rightarrow> string \<Rightarrow> cache_state \<Rightarrow> cache_state" where
  "setCache cfg h now key d format s =
     (case cacheMode cfg of
        disk \<Rightarrow> s\<lparr>files := setDiskCache cfg h now key d (files s)\<rparr>
      | memory \<Rightarrow> s\<lparr>memoryCache := LRUCache_set now key d (memoryCache s)\<rparr>
      | none \<Rightarrow> s
      | hybrid \<Rightarrow> s)"

text \<open>A run of \<^verbatim>\<open>setCache\<close> calls: clock value, key, bytes and format of each.\<close>

fun setCacheAll ::
  "'n config \<Rightarrow> host \<Rightarrow> (int \<times> string \<times> buffer \<times> string) list \<Rightarrow> cache_state \<Rightarrow> cache_state" where
  "setCacheAll cfg h [] s = s"
| "setCacheAll cfg h ((now, key, d, format) # rest) s =
     setCacheAll cfg h rest (setCache cfg h now key d format s)"

text \<open>
  \<^verbatim>\<open>getCacheStats\<close>: the \<^verbatim>\<open>switch\<close> has three cases and no default, so any other mode
  falls out of it and the function returns \<^verbatim>\<open>undefined\<close> (\<open>None\<close>).
\<close>

record cache_stats =
  mode :: CacheMode
  items :: "nat option"
  directory :: "string option"

definition getCacheStats :: "'n config \<Rightarrow> cache_state \<Rightarrow> cache_stats option" where
  "getCacheStats cfg s =
     (case cacheMode cfg of
        memory \<Rightarrow> Some \<lparr>mode = memory, items = Some (LRUCache_size (memoryCache s)), directory = None\<rparr>
      | disk \<Rightarrow> Some \<lparr>mode = disk, items = None, directory = Some (cacheDir cfg)\<rparr>
      | none \<Rightarrow> Some \<lparr>mode = none, items = None, directory = None\<rparr>
      | hybrid \<Rightarrow> None)"

subsection \<open>getCacheHeaders\<close>









subsection \<open>cleanupCache\<close>

text \<open>
  The disk sweep runs \<^verbatim>\<open>find <cacheDir> -type f -mmin +<maxAgeMinutes>\<close>, which lists the
  regular files under the root that pass the host's \<^verbatim>\<open>-mmin\<close> test, and then
  \<^verbatim>\<open>rm -f\<close> on each line; a failing \<^verbatim>\<open>rm\<close> is skipped and not counted, a failing
  \<^verbatim>\<open>find\<close> ends the sweep with 0. \<^verbatim>\<open>find\<close> prints a file as the root it was given
  followed by the path below the root; the model names the file by the path that holds it.
  A file is under the root when the segments of the root begin the segments of its path.
\<close>

definition pathSegments :: "string \<Rightarrow> string list" where
  "pathSegments path = normalizeString (\<not> isAbsolute path) (splitOn CHR ''/'' path) []"

definition under :: "string \<Rightarrow> string \<Rightarrow> bool" where
  "under root path \<longleftrightarrow>
     isAbsolute root = isAbsolute path \<and>
     take (length (pathSegments root)) (pathSegments path) = pathSegments root"

definition findMatches :: "host \<Rightarrow> string \<Rightarrow> int \<Rightarrow> int \<Rightarrow> string \<times> file_node \<Rightarrow> bool" where
  "findMatches h root maxAgeMinutes now p \<longleftrightarrow>
     under root (fst p) \<and> mminPlus h maxAgeMinutes now (mtime (snd p))"

definition findOld :: "host \<Rightarrow> string \<Rightarrow> int \<Rightarrow> int \<Rightarrow> filesystem \<Rightarrow> string list" where
  "findOld h root maxAgeMinutes now fs =
     map fst (filter (findMatches h root maxAgeMinutes now) fs)"

fun removeFiles :: "host \<Rightarrow> string list \<Rightarrow> nat \<Rightarrow> filesystem \<Rightarrow> nat \<times> filesystem" where
  "removeFiles h [] deleted fs = (deleted, fs)"
| "removeFiles h (file # oldFiles) deleted fs =
     (if rmOk h file then removeFiles h oldFiles (deleted + 1) (Map_delete file fs)
      else removeFiles h oldFiles deleted fs)"

definition cleanupCache :: "'n config \<Rightarrow> host \<Rightarrow> int \<Rightarrow> cache_state \<Rightarrow> nat \<times> cache_state" where
  "cleanupCache cfg h now s =
     (if cacheMode cfg = none then (0, s)
      else if cacheMode cfg = memory
      then (let r = LRUCache_cleanup cfg now (memoryCache s) in (fst r, s\<lparr>memoryCache := snd r\<rparr>))
      else (let maxAgeMinutes = cacheTTL cfg div 60 in
            if findOk h
            then (let r = removeFiles h (findOld h (cacheDir cfg) maxAgeMinutes now (files s)) 0 (files s)
                  in (fst r, s\<lparr>files := snd r\<rparr>))
            else (0, s)))"

text \<open>
  \<^verbatim>\<open>startCacheCleanup\<close> installs the timer that runs \<^verbatim>\<open>cleanupCache\<close> every
  \<open>intervalMs\<close> milliseconds, unless one is installed already or the mode is \<^verbatim>\<open>none\<close>.
  \<open>cleanupInterval\<close> is the module variable that holds the timer.
\<close>

definition startCacheCleanup :: "'n config \<Rightarrow> nat \<Rightarrow> nat option \<Rightarrow> nat option" where
  "startCacheCleanup cfg intervalMs cleanupInterval =
     (if cleanupInterval \<noteq> None then cleanupInterval
      else if cacheMode cfg = none then cleanupInterval
      else Some intervalMs)"

text \<open>
  The \<^verbatim>\<open>find\<close> of GNU findutils compares the modification time with the instant \<open>n\<close>
  minutes ago.
\<close>

definition gnu_mminPlus :: "int \<Rightarrow> int \<Rightarrow> int \<Rightarrow> bool" where
  "gnu_mminPlus n now t \<longleftrightarrow> t < now - n * 60000"

text \<open>A host on which every call and command succeeds, with GNU \<^verbatim>\<open>find\<close>.\<close>

definition gnuHost :: host where
  "gnuHost =
     \<lparr>writeOk = (\<lambda>p. True), readOk = (\<lambda>p. True), rmOk = (\<lambda>p. True), findOk = True,
      mminPlus = gnu_mminPlus\<rparr>"

section \<open>Properties\<close>

subsection \<open>The Map and the memory backend\<close>

lemma Map_delete_keys: "Map_keys (Map_delete k m) = removeAll k (Map_keys m)"
  by (induction m) (auto simp: Map_delete_def Map_keys_def)

lemma Map_delete_absent: "k \<notin> set (Map_keys m) \<Longrightarrow> Map_delete k m = m"
  by (induction m) (auto simp: Map_delete_def Map_keys_def)

lemma Map_delete_head: "k \<notin> set (Map_keys m) \<Longrightarrow> Map_delete k ((k, v) # m) = m"
  using Map_delete_absent [of k m] by (simp add: Map_delete_def)

lemma Map_get_delete: "Map_get k' (Map_delete k m) = (if k' = k then None else Map_get k' m)"
  by (induction m) (auto simp: Map_delete_def Map_get_def)

lemma Map_delete_length:
  "distinct (Map_keys m) \<Longrightarrow> Map_get k m = Some v \<Longrightarrow> Suc (length (Map_delete k m)) = length m"
proof (induction m)
  case Nil
  then show ?case by (simp add: Map_get_def)
next
  case (Cons p m)
  show ?case
  proof (cases "fst p = k")
    case True
    with Cons.prems have "k \<notin> set (Map_keys m)" by (simp add: Map_keys_def)
    then have "Map_delete k (p # m) = m"
      using True Map_delete_head [of k m "snd p"] by (cases p) simp
    then show ?thesis by simp
  next
    case False
    with Cons show ?thesis by (auto simp: Map_delete_def Map_keys_def Map_get_def)
  qed
qed

lemma Map_set_keys:
  "Map_keys (Map_set k v m) = (if k \<in> set (Map_keys m) then Map_keys m else Map_keys m @ [k])"
proof (induction m)
  case Nil
  show ?case by (simp add: Map_keys_def)
next
  case (Cons p m)
  obtain k' v' where p: "p = (k', v')" by (cases p)
  show ?case using Cons unfolding p Map_keys_def by (cases "k' = k") auto
qed

lemma Map_get_set: "Map_get k' (Map_set k v m) = (if k' = k then Some v else Map_get k' m)"
  by (induction m) (auto simp: Map_get_def)

lemma Map_get_keys: "Map_get k m = Some v \<Longrightarrow> k \<in> set (Map_keys m)"
  by (auto simp: Map_get_def Map_keys_def dest: map_of_SomeD intro: rev_image_eqI)

lemma evictOldest_below: "length m < n \<Longrightarrow> evictOldest n m = m"
  by (simp add: evictOldest.simps)

lemma evictOldest_full:
  assumes "1 \<le> n" "length m = n" "distinct (Map_keys m)" "[] \<notin> set (Map_keys m)"
  shows "evictOldest n m = tl m"
proof (cases m)
  case Nil
  with assms show ?thesis by simp
next
  case (Cons p rest)
  obtain k e where p: "p = (k, e)" by (cases p)
  from assms Cons p have k: "k \<noteq> []" "k \<notin> set (Map_keys rest)" by (auto simp: Map_keys_def)
  have del: "Map_delete k m = rest" using Cons p k(2) by (simp add: Map_delete_head)
  have "evictOldest n m = evictOldest n rest"
    using assms(2) Cons p k(1) del by (subst evictOldest.simps) simp
  also have "\<dots> = rest" using assms(2) Cons by (intro evictOldest_below) simp
  finally show ?thesis using Cons by simp
qed


lemma in_set_tl: "x \<in> set (tl xs) \<Longrightarrow> x \<in> set xs"
  by (cases xs) auto

lemma Map_set_length:
  "length (Map_set k v m) = (if k \<in> set (Map_keys m) then length m else Suc (length m))"
  using arg_cong [OF Map_set_keys [of k v m], of length] by (simp add: Map_keys_def split: if_splits)

lemma Map_set_distinct: "distinct (Map_keys m) \<Longrightarrow> distinct (Map_keys (Map_set k v m))"
  by (simp add: Map_set_keys)

lemma Map_delete_distinct: "distinct (Map_keys m) \<Longrightarrow> distinct (Map_keys (Map_delete k m))"
  by (simp add: Map_delete_keys distinct_removeAll)

lemma evictOldest_inv:
  assumes "lru_inv c"
  shows "evictOldest (maxItems c) (cache c) =
           (if length (cache c) = maxItems c then tl (cache c) else cache c)"
  using assms evictOldest_full [of "maxItems c" "cache c"] evictOldest_below [of "cache c" "maxItems c"]
  by (auto simp: lru_inv_def)

lemma Map_keys_tl: "Map_keys (tl m) = tl (Map_keys m)"
  by (simp add: Map_keys_def map_tl)

lemma set_keys_new:
  assumes "lru_inv c" "key \<notin> set (Map_keys (cache c))"
  shows "Map_keys (cache (LRUCache_set now key d c)) =
           (if length (cache c) = maxItems c then tl (Map_keys (cache c)) else Map_keys (cache c)) @ [key]"
proof -
  have "key \<notin> set (tl (Map_keys (cache c)))"
    using assms(2) in_set_tl by metis
  then show ?thesis
    using assms by (simp add: LRUCache_set_def evictOldest_inv Map_set_keys Map_keys_tl)
qed

lemma set_inv:
  assumes "lru_inv c" "key \<noteq> []"
  shows "lru_inv (LRUCache_set now key d c)"
proof -
  let ?m = "evictOldest (maxItems c) (cache c)"
  have m: "?m = (if length (cache c) = maxItems c then tl (cache c) else cache c)"
    using assms(1) by (rule evictOldest_inv)
  have d: "distinct (Map_keys ?m)" and ne: "[] \<notin> set (Map_keys ?m)"
    and len: "length ?m < maxItems c"
    using assms(1) unfolding m lru_inv_def
    by (auto simp: Map_keys_tl distinct_tl dest: in_set_tl)
  have "length (Map_set key e ?m) \<le> maxItems c" for e
    using len by (simp add: Map_set_length)
  moreover have "[] \<notin> set (Map_keys (Map_set key e ?m))" for e
    using ne assms(2) by (simp add: Map_set_keys)
  ultimately show ?thesis
    using d assms(1) by (simp add: lru_inv_def LRUCache_set_def Map_set_distinct)
qed

lemma get_inv:
  assumes "lru_inv c"
  shows "lru_inv (snd (LRUCache_get cfg now key c))"
proof (cases "Map_get key (cache c)")
  case None
  then show ?thesis using assms by (simp add: LRUCache_get_def)
next
  case (Some entry)
  have k: "key \<in> set (Map_keys (cache c))" using Some by (rule Map_get_keys)
  have len: "Suc (length (Map_delete key (cache c))) = length (cache c)"
    using assms Some by (intro Map_delete_length) (auto simp: lru_inv_def)
  have ne: "[] \<notin> set (Map_keys (Map_delete key (cache c)))"
    using assms by (simp add: Map_delete_keys lru_inv_def)
  have ne': "[] \<notin> set (Map_keys (Map_set key entry (Map_delete key (cache c))))"
    using ne k assms by (auto simp: Map_set_keys lru_inv_def)
  have len': "length (Map_set key entry (Map_delete key (cache c))) \<le> maxItems c"
    using len assms by (simp add: Map_set_length Map_delete_keys lru_inv_def)
  show ?thesis
    using assms Some ne ne' len len'
    by (simp add: LRUCache_get_def Let_def lru_inv_def Map_delete_distinct Map_set_distinct)
qed

lemma new_inv: "1 \<le> n \<Longrightarrow> lru_inv (LRUCache_new n)"
  by (simp add: lru_inv_def LRUCache_new_def Map_keys_def)

lemma insertAll_keys:
  assumes "lru_inv c" "distinct (Map_keys (cache c) @ map (\<lambda>x. fst (snd x)) ins)"
    "[] \<notin> set (map (\<lambda>x. fst (snd x)) ins)"
  shows "Map_keys (cache (insertAll ins c)) =
           drop (length (Map_keys (cache c) @ map (\<lambda>x. fst (snd x)) ins) - maxItems c)
                (Map_keys (cache c) @ map (\<lambda>x. fst (snd x)) ins)
         \<and> maxItems (insertAll ins c) = maxItems c"
  using assms
proof (induction ins arbitrary: c)
  case Nil
  then show ?case by (simp add: lru_inv_def Map_keys_def)
next
  case (Cons x ins)
  obtain now key d where x: "x = (now, key, d)" by (cases x)
  let ?c = "LRUCache_set now key d c"
  have new: "key \<notin> set (Map_keys (cache c))" and kne: "key \<noteq> []"
    using Cons.prems x by auto
  have inv: "lru_inv ?c" using Cons.prems(1) kne by (rule set_inv)
  have keys: "Map_keys (cache ?c) =
      (if length (cache c) = maxItems c then tl (Map_keys (cache c)) else Map_keys (cache c)) @ [key]"
    using Cons.prems(1) new by (rule set_keys_new)
  have mx: "maxItems ?c = maxItems c" by (simp add: LRUCache_set_def)
  have lenk: "length (Map_keys (cache c)) = length (cache c)" by (simp add: Map_keys_def)
  have d': "distinct (Map_keys (cache ?c) @ map (\<lambda>x. fst (snd x)) ins)"
    using Cons.prems(2) x unfolding keys by (auto simp: distinct_tl dest: in_set_tl)
  have ne': "[] \<notin> set (map (\<lambda>x. fst (snd x)) ins)" using Cons.prems(3) by simp
  note IH = Cons.IH [OF inv d' ne']
  show ?case
  proof (cases "length (cache c) = maxItems c")
    case True
    then have nonempty: "Map_keys (cache c) \<noteq> []"
      using Cons.prems(1) lenk by (auto simp: lru_inv_def)
    then obtain k0 ks where ks: "Map_keys (cache c) = k0 # ks" by (cases "Map_keys (cache c)") auto
    have "length ks + 1 = maxItems c" using True lenk ks by simp
    then show ?thesis using IH True unfolding keys mx x ks by (simp add: Suc_diff_le)
  next
    case False
    then show ?thesis using IH unfolding keys mx x by simp
  qed
qed

lemma cleanup_inv: "lru_inv c \<Longrightarrow> lru_inv (snd (LRUCache_cleanup cfg now c))"
proof -
  assume a: "lru_inv c"
  let ?m = "filter (\<lambda>p. \<not> now - createdAt (snd p) > cacheTTL cfg * 1000) (cache c)"
  have "distinct (Map_keys ?m)" using a by (simp add: lru_inv_def Map_keys_def distinct_map_filter)
  moreover have "[] \<notin> set (Map_keys ?m)" using a by (auto simp: lru_inv_def Map_keys_def)
  moreover have "length ?m \<le> length (cache c)" by (rule length_filter_le)
  then have "length ?m \<le> maxItems c" using a unfolding lru_inv_def by linarith
  ultimately show ?thesis using a by (simp add: LRUCache_cleanup_def Let_def lru_inv_def)
qed

lemma clear_inv: "lru_inv c \<Longrightarrow> lru_inv (LRUCache_clear c)"
  by (simp add: lru_inv_def LRUCache_clear_def Map_keys_def)

lemma insertAll_inv:
  "lru_inv c \<Longrightarrow> [] \<notin> set (insertedKeys ins) \<Longrightarrow> lru_inv (insertAll ins c)"
proof (induction ins arbitrary: c)
  case Nil
  then show ?case by simp
next
  case (Cons x ins)
  obtain now key d where x: "x = (now, key, d)" by (cases x)
  have "key \<noteq> []" using Cons.prems(2) x by (auto simp: insertedKeys_def)
  then have "lru_inv (LRUCache_set now key d c)" using Cons.prems(1) by (intro set_inv)
  moreover have "[] \<notin> set (insertedKeys ins)" using Cons.prems(2) by (simp add: insertedKeys_def)
  ultimately show ?case using Cons.IH x by simp
qed

text \<open>
  What \<^verbatim>\<open>set\<close> does at capacity. In a cache built with \<^verbatim>\<open>maxItems\<close> at least 1 and
  holding cache keys, a \<^verbatim>\<open>set\<close> that finds the Map full evicts the first entry of the
  Map, and only that one, and then stores the new entry. Inserting \<open>N + 1\<close> distinct keys
  into an empty cache of capacity \<open>N\<close> leaves the last \<open>N\<close> of them, in order: the size
  is \<open>N\<close> and the first key inserted is the only one missing.
\<close>

lemma lru_set_evicts_first_entry:
  "(lru_inv c \<and> maxItems c \<le> LRUCache_size c \<longrightarrow>
      cache c \<noteq> [] \<and> evictOldest (maxItems c) (cache c) = tl (cache c) \<and>
      cache (LRUCache_set now key d c) =
        Map_set key \<lparr>data = d, createdAt = now\<rparr> (tl (cache c))) \<and>
   (1 \<le> N \<and> distinct (insertedKeys ins) \<and> [] \<notin> set (insertedKeys ins) \<and>
    length ins = N + 1 \<longrightarrow>
      Map_keys (cache (insertAll ins (LRUCache_new N))) = tl (insertedKeys ins) \<and>
      LRUCache_size (insertAll ins (LRUCache_new N)) = N \<and>
      hd (insertedKeys ins) \<notin> set (Map_keys (cache (insertAll ins (LRUCache_new N)))))"
proof (intro conjI impI)
  assume a: "lru_inv c \<and> maxItems c \<le> LRUCache_size c"
  then have len: "length (cache c) = maxItems c" and pos: "1 \<le> maxItems c"
    by (auto simp: lru_inv_def LRUCache_size_def)
  show "cache c \<noteq> []" using len pos by auto
  show ev: "evictOldest (maxItems c) (cache c) = tl (cache c)"
    using a len by (simp add: evictOldest_inv)
  show "cache (LRUCache_set now key d c) =
        Map_set key \<lparr>data = d, createdAt = now\<rparr> (tl (cache c))"
    by (simp add: LRUCache_set_def ev)
next
  assume a: "1 \<le> N \<and> distinct (insertedKeys ins) \<and> [] \<notin> set (insertedKeys ins) \<and>
    length ins = N + 1"
  have inv: "lru_inv (LRUCache_new N)" using a by (simp add: new_inv)
  have keys: "Map_keys (cache (insertAll ins (LRUCache_new N))) = drop 1 (insertedKeys ins)"
    using insertAll_keys [OF inv, of ins] a
    by (simp add: LRUCache_new_def Map_keys_def insertedKeys_def)
  then show k: "Map_keys (cache (insertAll ins (LRUCache_new N))) = tl (insertedKeys ins)"
    by (simp add: drop_Suc)
  show "LRUCache_size (insertAll ins (LRUCache_new N)) = N"
    using arg_cong [OF k, of length] a by (simp add: LRUCache_size_def Map_keys_def insertedKeys_def)
  show "hd (insertedKeys ins) \<notin> set (Map_keys (cache (insertAll ins (LRUCache_new N))))"
    unfolding k using a by (cases "insertedKeys ins") auto
qed

text \<open>
  \<^bold>\<open>C3.\<close> The claim has every \<^verbatim>\<open>set\<close> at capacity evict the least recently used
  entry. The first entry of the Map, which is the one \<^verbatim>\<open>set\<close> evicts, is the least
  recently used one only as long as no present key has been set again: with capacity 3, after
  \<^verbatim>\<open>set a\<close> at time 0, \<^verbatim>\<open>set b\<close> at 1, \<^verbatim>\<open>set a\<close> at 2 and \<^verbatim>\<open>set c\<close> at 3 the
  cache is full, \<^verbatim>\<open>b\<close> is the entry touched longest ago, and \<^verbatim>\<open>set d\<close> at 4 evicts
  \<^verbatim>\<open>a\<close>, written at 2, and keeps \<^verbatim>\<open>b\<close>.
\<close>

theorem lru_set_evicts_entry_written_later:
  "cache (insertAll [(0, ''a'', [1]), (1, ''b'', [2]), (2, ''a'', [3]), (3, ''c'', [4])]
            (LRUCache_new 3))
     = [(''a'', \<lparr>data = [3], createdAt = 2\<rparr>), (''b'', \<lparr>data = [2], createdAt = 1\<rparr>),
        (''c'', \<lparr>data = [4], createdAt = 3\<rparr>)] \<and>
   LRUCache_size (insertAll [(0, ''a'', [1]), (1, ''b'', [2]), (2, ''a'', [3]), (3, ''c'', [4])]
                    (LRUCache_new 3))
     = maxItems (insertAll [(0, ''a'', [1]), (1, ''b'', [2]), (2, ''a'', [3]), (3, ''c'', [4])]
                   (LRUCache_new 3)) \<and>
   cache (LRUCache_set 4 ''d'' [5]
            (insertAll [(0, ''a'', [1]), (1, ''b'', [2]), (2, ''a'', [3]), (3, ''c'', [4])]
               (LRUCache_new 3)))
     = [(''b'', \<lparr>data = [2], createdAt = 1\<rparr>), (''c'', \<lparr>data = [4], createdAt = 3\<rparr>),
        (''d'', \<lparr>data = [5], createdAt = 4\<rparr>)]"
  by (simp add: LRUCache_set_def LRUCache_new_def LRUCache_size_def evictOldest.simps
      Map_keys_def Map_delete_def)

text \<open>
  \<^bold>\<open>C5.\<close> \<^verbatim>\<open>get\<close> on a key whose entry is older than the TTL (its age in milliseconds
  exceeds \<^verbatim>\<open>cacheTTL * 1000\<close>) returns \<^verbatim>\<open>null\<close>, deletes the entry and lowers the size
  by one; on an entry whose age does not exceed the TTL it returns the stored bytes.
\<close>

theorem lru_get_expiry:
  assumes "distinct (Map_keys (cache c))" and "Map_get key (cache c) = Some entry"
  shows "if now - createdAt entry > cacheTTL cfg * 1000
         then fst (LRUCache_get cfg now key c) = None \<and>
              cache (snd (LRUCache_get cfg now key c)) = Map_delete key (cache c) \<and>
              Map_get key (cache (snd (LRUCache_get cfg now key c))) = None \<and>
              LRUCache_size (snd (LRUCache_get cfg now key c)) + 1 = LRUCache_size c
         else fst (LRUCache_get cfg now key c) = Some (data entry)"
proof (cases "now - createdAt entry > cacheTTL cfg * 1000")
  case True
  have "Suc (length (Map_delete key (cache c))) = length (cache c)"
    using assms by (rule Map_delete_length)
  then show ?thesis
    using True assms(2) by (simp add: LRUCache_get_def Let_def Map_get_delete LRUCache_size_def)
next
  case False
  then show ?thesis using assms(2) by (simp add: LRUCache_get_def Let_def)
qed

text \<open>
  An instance with a TTL of 60 seconds: an entry created at 0 is gone at 60001 ms and is
  still served at 60000 ms.
\<close>

theorem lru_get_expiry_witness:
  "distinct (Map_keys [(''a'', \<lparr>data = [1], createdAt = 0\<rparr>), (''b'', \<lparr>data = [2], createdAt = 5\<rparr>)]) \<and>
   Map_get ''a'' [(''a'', \<lparr>data = [1], createdAt = 0\<rparr>), (''b'', \<lparr>data = [2], createdAt = 5\<rparr>)]
     = Some \<lparr>data = [1], createdAt = 0\<rparr> \<and>
   fst (LRUCache_get \<lparr>cacheMode = memory, cacheDir = ''./cache'', cacheTTL = 60,
                      maxMemoryCacheItems = 2, browserCacheTTL = (31536000 :: safe_natural)\<rparr> 60001 ''a''
          \<lparr>cache = [(''a'', \<lparr>data = [1], createdAt = 0\<rparr>), (''b'', \<lparr>data = [2], createdAt = 5\<rparr>)],
           maxItems = 2\<rparr>) = None \<and>
   LRUCache_size (snd (LRUCache_get \<lparr>cacheMode = memory, cacheDir = ''./cache'', cacheTTL = 60,
                      maxMemoryCacheItems = 2, browserCacheTTL = (31536000 :: safe_natural)\<rparr> 60001 ''a''
          \<lparr>cache = [(''a'', \<lparr>data = [1], createdAt = 0\<rparr>), (''b'', \<lparr>data = [2], createdAt = 5\<rparr>)],
           maxItems = 2\<rparr>)) + 1 = 2 \<and>
   fst (LRUCache_get \<lparr>cacheMode = memory, cacheDir = ''./cache'', cacheTTL = 60,
                      maxMemoryCacheItems = 2, browserCacheTTL = (31536000 :: safe_natural)\<rparr> 60000 ''a''
          \<lparr>cache = [(''a'', \<lparr>data = [1], createdAt = 0\<rparr>), (''b'', \<lparr>data = [2], createdAt = 5\<rparr>)],
           maxItems = 2\<rparr>) = Some [1]"
proof -
  let ?m = "[(''a'', \<lparr>data = [1], createdAt = 0\<rparr>), (''b'', \<lparr>data = [2 :: 8 word], createdAt = 5\<rparr>)]"
  let ?c = "\<lparr>cache = ?m, maxItems = 2\<rparr>"
  let ?cfg = "\<lparr>cacheMode = memory, cacheDir = ''./cache'', cacheTTL = 60,
                      maxMemoryCacheItems = 2, browserCacheTTL = (31536000 :: safe_natural)\<rparr>"
  have d: "distinct (Map_keys (cache ?c))" by (simp add: Map_keys_def)
  have g: "Map_get ''a'' (cache ?c) = Some \<lparr>data = [1], createdAt = 0\<rparr>" by (simp add: Map_get_def)
  from lru_get_expiry [OF d g, where now = 60001 and cfg = ?cfg]
    lru_get_expiry [OF d g, where now = 60000 and cfg = ?cfg] d g
  show ?thesis by (simp add: LRUCache_size_def Map_delete_def)
qed

text \<open>
  The recency order is the order of the Map. A hit of \<^verbatim>\<open>get\<close> moves the key to the end,
  and \<^verbatim>\<open>set\<close> of a key that is not in the Map appends it (\<open>set_keys_new\<close>). A
  \<^verbatim>\<open>set\<close> of a key that is in the Map, below capacity, leaves the key where it was.
\<close>

lemma lru_get_hit_moves_to_end:
  assumes "Map_get key (cache c) = Some entry" "\<not> now - createdAt entry > cacheTTL cfg * 1000"
  shows "Map_keys (cache (snd (LRUCache_get cfg now key c))) = removeAll key (Map_keys (cache c)) @ [key]"
  using assms by (simp add: LRUCache_get_def Let_def Map_set_keys Map_delete_keys)

lemma lru_set_present_keeps_position:
  assumes "key \<in> set (Map_keys (cache c))" "length (cache c) < maxItems c"
  shows "Map_keys (cache (LRUCache_set now key d c)) = Map_keys (cache c)"
  using assms by (simp add: LRUCache_set_def evictOldest_below Map_set_keys)

text \<open>
  \<^bold>\<open>C4.\<close> The claim has \<^verbatim>\<open>set\<close> of a present key move the entry to the most recently
  used end, as \<^verbatim>\<open>get\<close> does with \<^verbatim>\<open>delete\<close> followed by \<^verbatim>\<open>set\<close>. The code of
  \<^verbatim>\<open>set\<close> has no \<^verbatim>\<open>delete\<close>: with capacity 3, after \<^verbatim>\<open>set a, set b, set a\<close> the
  order is still \<^verbatim>\<open>a, b\<close> although \<^verbatim>\<open>a\<close> holds the newest value, and two more inserts
  evict \<^verbatim>\<open>a\<close> and keep \<^verbatim>\<open>b\<close>.
\<close>

theorem lru_set_present_key_keeps_position:
  "Map_keys (cache (insertAll [(0, ''a'', [1]), (1, ''b'', [2]), (2, ''a'', [3])] (LRUCache_new 3)))
     = [''a'', ''b''] \<and>
   Map_get ''a'' (cache (insertAll [(0, ''a'', [1]), (1, ''b'', [2]), (2, ''a'', [3])] (LRUCache_new 3)))
     = Some \<lparr>data = [3], createdAt = 2\<rparr> \<and>
   Map_keys (cache (insertAll [(0, ''a'', [1]), (1, ''b'', [2]), (2, ''a'', [3]), (3, ''c'', [4]),
                               (4, ''d'', [5])] (LRUCache_new 3)))
     = [''b'', ''c'', ''d'']"
  by (simp add: LRUCache_set_def LRUCache_new_def evictOldest.simps Map_keys_def Map_get_def
      Map_delete_def)

subsection \<open>The unified interface and the response headers\<close>

lemma setCacheAll_none: "cacheMode cfg = none \<Longrightarrow> setCacheAll cfg h calls s = s"
  by (induction cfg h calls s rule: setCacheAll.induct) (simp_all add: setCache_def)

text \<open>
  \<^bold>\<open>C8.\<close> With cache mode \<^verbatim>\<open>none\<close>, \<^verbatim>\<open>setCache\<close> returns the state it was given (the
  memory cache and the files alike), so does any run of \<^verbatim>\<open>setCache\<close> calls, and
  \<^verbatim>\<open>getCached\<close> after such a run returns \<^verbatim>\<open>null\<close> for every key and changes nothing.
\<close>

theorem none_mode_is_uncached:
  assumes "cacheMode cfg = none"
  shows "setCache cfg h now key d format s = s \<and>
         setCacheAll cfg h calls s = s \<and>
         getCached cfg h now' key' (setCacheAll cfg h calls s) = (None, s)"
  using assms by (simp add: setCacheAll_none setCache_def getCached_def)

text \<open>An instance: two \<^verbatim>\<open>setCache\<close> calls on the empty state, then a \<^verbatim>\<open>getCached\<close>.\<close>

theorem none_mode_is_uncached_witness:
  "cacheMode (defaultConfig\<lparr>cacheMode := none\<rparr>) = none \<and>
   setCacheAll (defaultConfig\<lparr>cacheMode := none\<rparr>)
      gnuHost
      [(10, ''ab12'', [1, 2], ''png''), (20, ''cd34'', [3], ''webp'')]
      \<lparr>memoryCache = LRUCache_new 1000, files = []\<rparr>
     = \<lparr>memoryCache = LRUCache_new 1000, files = []\<rparr> \<and>
   getCached (defaultConfig\<lparr>cacheMode := none\<rparr>)
      gnuHost
      30 ''ab12''
      (setCacheAll (defaultConfig\<lparr>cacheMode := none\<rparr>)
         gnuHost
         [(10, ''ab12'', [1, 2], ''png''), (20, ''cd34'', [3], ''webp'')]
         \<lparr>memoryCache = LRUCache_new 1000, files = []\<rparr>)
     = (None, \<lparr>memoryCache = LRUCache_new 1000, files = []\<rparr>)"
proof -
  have m: "cacheMode (defaultConfig\<lparr>cacheMode := none\<rparr>) = none" by simp
  let ?h = "gnuHost"
  let ?calls = "[(10, ''ab12'', [1, 2], ''png''), (20, ''cd34'', [3], ''webp'')] ::
                  (int \<times> string \<times> buffer \<times> string) list"
  let ?s = "\<lparr>memoryCache = LRUCache_new 1000, files = []\<rparr>"
  note t = none_mode_is_uncached [OF m, where h = ?h and calls = ?calls and s = ?s
      and now' = 30 and key' = "''ab12''" and now = 0 and key = "[]" and d = "[]" and format = "[]"]
  show ?thesis
    by (intro conjI m t [THEN conjunct2, THEN conjunct1] t [THEN conjunct2, THEN conjunct2])
qed

text \<open>The definitions that evaluate a path.\<close>

lemmas path_eval = join_def normalize_def isAbsolute_def getCachePath_def pathSegments_def under_def

text \<open>
  \<^bold>\<open>C10\<close>, as amended. The schema accepts the mode string \<^verbatim>\<open>hybrid\<close>. In that mode
  \<^verbatim>\<open>getCached\<close> takes the \<^verbatim>\<open>default\<close> branch and returns \<^verbatim>\<open>null\<close> for every key and
  \<^verbatim>\<open>setCache\<close> matches no case and leaves the state as it is, both as in mode
  \<^verbatim>\<open>none\<close>; \<^verbatim>\<open>getCacheStats\<close> returns no value. The cleanup is not as in mode
  \<^verbatim>\<open>none\<close>: \<^verbatim>\<open>cleanupCache\<close> runs the disk sweep, as in mode \<^verbatim>\<open>disk\<close>, and
  \<^verbatim>\<open>startCacheCleanup\<close> installs the timer that runs it, where in mode \<^verbatim>\<open>none\<close>
  the first returns 0 and the second installs nothing.
\<close>

theorem hybrid_mode_reads_and_writes_nothing:
  assumes "cacheMode cfg = hybrid"
  shows "checkCacheMode ''hybrid'' = Some hybrid \<and>
         getCached cfg h now key s = (None, s) \<and>
         setCache cfg h now key d format s = s \<and>
         getCached cfg h now key s = getCached (cfg\<lparr>cacheMode := none\<rparr>) h now key s \<and>
         setCache cfg h now key d format s = setCache (cfg\<lparr>cacheMode := none\<rparr>) h now key d format s \<and>
         getCacheStats cfg s = None \<and>
         cleanupCache cfg h now s = cleanupCache (cfg\<lparr>cacheMode := disk\<rparr>) h now s \<and>
         cleanupCache (cfg\<lparr>cacheMode := none\<rparr>) h now s = (0, s) \<and>
         startCacheCleanup cfg intervalMs None = Some intervalMs \<and>
         startCacheCleanup (cfg\<lparr>cacheMode := none\<rparr>) intervalMs None = None"
  using assms
  by (simp add: checkCacheMode_def CacheModeSchema_def getCached_def setCache_def getCacheStats_def
      cleanupCache_def startCacheCleanup_def)

text \<open>
  An instance on a state that already holds an entry and a file under the key asked for, the
  file old enough for the sweep.
\<close>

theorem hybrid_mode_reads_and_writes_nothing_witness:
  "cacheMode (defaultConfig\<lparr>cacheMode := hybrid\<rparr>) = hybrid \<and>
   checkCacheMode ''hybrid'' = Some hybrid \<and>
   getCached (defaultConfig\<lparr>cacheMode := hybrid\<rparr>)
      gnuHost
      30 ''ab12''
      \<lparr>memoryCache = \<lparr>cache = [(''ab12'', \<lparr>data = [7], createdAt = 0\<rparr>)], maxItems = 1000\<rparr>,
       files = [(''cache/ab/ab12'', \<lparr>content = [7], mtime = 0\<rparr>)]\<rparr>
     = (None,
        \<lparr>memoryCache = \<lparr>cache = [(''ab12'', \<lparr>data = [7], createdAt = 0\<rparr>)], maxItems = 1000\<rparr>,
         files = [(''cache/ab/ab12'', \<lparr>content = [7], mtime = 0\<rparr>)]\<rparr>) \<and>
   setCache (defaultConfig\<lparr>cacheMode := hybrid\<rparr>)
      gnuHost
      30 ''cd34'' [9] ''png'' \<lparr>memoryCache = LRUCache_new 1000, files = []\<rparr>
     = \<lparr>memoryCache = LRUCache_new 1000, files = []\<rparr> \<and>
   getCacheStats (defaultConfig\<lparr>cacheMode := hybrid\<rparr>)
      \<lparr>memoryCache = LRUCache_new 1000, files = []\<rparr> = None \<and>
   cleanupCache (defaultConfig\<lparr>cacheMode := hybrid\<rparr>)
      gnuHost
      90000000
      \<lparr>memoryCache = \<lparr>cache = [(''ab12'', \<lparr>data = [7], createdAt = 0\<rparr>)], maxItems = 1000\<rparr>,
       files = [(''cache/ab/ab12'', \<lparr>content = [7], mtime = 0\<rparr>)]\<rparr>
     = (1, \<lparr>memoryCache = \<lparr>cache = [(''ab12'', \<lparr>data = [7], createdAt = 0\<rparr>)], maxItems = 1000\<rparr>,
           files = []\<rparr>) \<and>
   startCacheCleanup (defaultConfig\<lparr>cacheMode := hybrid\<rparr>) 3600000 None = Some 3600000"
proof -
  have m: "cacheMode (defaultConfig\<lparr>cacheMode := hybrid\<rparr>) = hybrid" by simp
  let ?h = "gnuHost"
  let ?s = "\<lparr>memoryCache = \<lparr>cache = [(''ab12'', \<lparr>data = [7], createdAt = 0\<rparr>)], maxItems = 1000\<rparr>,
       files = [(''cache/ab/ab12'', \<lparr>content = [7], mtime = 0\<rparr>)]\<rparr>"
  let ?e = "\<lparr>memoryCache = LRUCache_new 1000, files = []\<rparr>"
  note t = hybrid_mode_reads_and_writes_nothing [OF m, where h = ?h and s = ?s and now = 30
      and key = "''ab12''" and d = "[]" and format = "[]" and intervalMs = 3600000]
  note u = hybrid_mode_reads_and_writes_nothing [OF m, where h = ?h and s = ?e and now = 30
      and key = "''cd34''" and d = "[9]" and format = "''png''" and intervalMs = 3600000]
  note v = hybrid_mode_reads_and_writes_nothing [OF m, where h = ?h and s = ?s and now = 90000000
      and key = "[]" and d = "[]" and format = "[]" and intervalMs = 3600000]
  have w: "cleanupCache (defaultConfig\<lparr>cacheMode := hybrid\<rparr>) ?h 90000000 ?s
      = (1, \<lparr>memoryCache = \<lparr>cache = [(''ab12'', \<lparr>data = [7], createdAt = 0\<rparr>)], maxItems = 1000\<rparr>,
             files = []\<rparr>)"
    unfolding v [THEN conjunct2, THEN conjunct2, THEN conjunct2, THEN conjunct2, THEN conjunct2,
           THEN conjunct2, THEN conjunct1]
    by (simp add: cleanupCache_def defaultConfig_def gnuHost_def
      gnu_mminPlus_def findOld_def findMatches_def path_eval Map_delete_def)
  show ?thesis
    by (intro conjI m t [THEN conjunct1] t [THEN conjunct2, THEN conjunct1]
        u [THEN conjunct2, THEN conjunct2, THEN conjunct1]
        u [THEN conjunct2, THEN conjunct2, THEN conjunct2, THEN conjunct2, THEN conjunct2, THEN conjunct1]
        w
        v [THEN conjunct2, THEN conjunct2, THEN conjunct2, THEN conjunct2, THEN conjunct2,
           THEN conjunct2, THEN conjunct2, THEN conjunct2, THEN conjunct1])
qed

text \<open>
  The claim as it stands, that in mode \<^verbatim>\<open>hybrid\<close> the process behaves for caching exactly
  as in mode \<^verbatim>\<open>none\<close>, fails at the cleanup: with the default TTL and a cache file 25 hours
  old, \<^verbatim>\<open>cleanupCache\<close> removes the file and returns 1 in mode \<^verbatim>\<open>hybrid\<close>, and returns
  0 and leaves the file in mode \<^verbatim>\<open>none\<close>; \<^verbatim>\<open>startCacheCleanup\<close> installs the timer in
  mode \<^verbatim>\<open>hybrid\<close> and not in mode \<^verbatim>\<open>none\<close>.
\<close>

theorem hybrid_mode_cleanup_counterexample:
  "cleanupCache (defaultConfig\<lparr>cacheMode := hybrid\<rparr>) gnuHost 90000000
      \<lparr>memoryCache = LRUCache_new 1000,
       files = [(''cache/ab/ab12'', \<lparr>content = [7], mtime = 0\<rparr>)]\<rparr>
     = (1, \<lparr>memoryCache = LRUCache_new 1000, files = []\<rparr>) \<and>
   cleanupCache (defaultConfig\<lparr>cacheMode := none\<rparr>) gnuHost 90000000
      \<lparr>memoryCache = LRUCache_new 1000,
       files = [(''cache/ab/ab12'', \<lparr>content = [7], mtime = 0\<rparr>)]\<rparr>
     = (0, \<lparr>memoryCache = LRUCache_new 1000,
            files = [(''cache/ab/ab12'', \<lparr>content = [7], mtime = 0\<rparr>)]\<rparr>) \<and>
   startCacheCleanup (defaultConfig\<lparr>cacheMode := hybrid\<rparr>) 3600000 None = Some 3600000 \<and>
   startCacheCleanup (defaultConfig\<lparr>cacheMode := none\<rparr>) 3600000 None = None"
  by (simp add: cleanupCache_def startCacheCleanup_def defaultConfig_def gnuHost_def
      gnu_mminPlus_def findOld_def findMatches_def path_eval Map_delete_def)




subsection \<open>The cache key\<close>

lemma insertSorted_mset: "mset (insertSorted c x ys) = add_mset x (mset ys)"
  by (induction ys) auto

lemma sortBy_mset: "mset (sortBy c xs) = mset xs"
  by (induction xs) (auto simp: sortBy_def insertSorted_mset)



lemma comparator_flip: "consistentComparator c \<Longrightarrow> \<not> c x y \<le> 0 \<Longrightarrow> c y x \<le> 0"
  unfolding consistentComparator_def by (metis less_le not_le)

lemma comparator_trans:
  "consistentComparator c \<Longrightarrow> c x y \<le> 0 \<Longrightarrow> c y z \<le> 0 \<Longrightarrow> c x z \<le> 0"
  unfolding consistentComparator_def by blast


lemma insertSorted_set: "set (insertSorted c x ys) = insert x (set ys)"
  using insertSorted_mset [of c x ys] by (metis set_mset_add_mset_insert set_mset_mset)

lemma insertSorted_sorted:
  assumes "consistentComparator c" "sorted_wrt (\<lambda>a b. c a b \<le> 0) ys"
  shows "sorted_wrt (\<lambda>a b. c a b \<le> 0) (insertSorted c x ys)"
  using assms(2)
proof (induction ys)
  case Nil
  show ?case by simp
next
  case (Cons y ys)
  show ?case
  proof (cases "c x y \<le> 0")
    case True
    have "c x z \<le> 0" if "z \<in> set ys" for z
      using comparator_trans [OF assms(1) True] Cons.prems that by simp
    then show ?thesis using True Cons.prems by simp
  next
    case False
    have "c y x \<le> 0" using assms(1) False by (rule comparator_flip)
    then show ?thesis using False Cons by (simp add: insertSorted_set)
  qed
qed

lemma sortBy_sorted:
  "consistentComparator c \<Longrightarrow> sorted_wrt (\<lambda>a b. c a b \<le> 0) (sortBy c xs)"
proof (induction xs)
  case Nil
  show ?case by (simp add: sortBy_def)
next
  case (Cons x xs)
  then have "sorted_wrt (\<lambda>a b. c a b \<le> 0) (insertSorted c x (sortBy c xs))"
    by (intro insertSorted_sorted) simp_all
  then show ?case by (simp add: sortBy_def)
qed


lemma entry_comparator:
  "consistentComparator cmp \<Longrightarrow> consistentComparator (\<lambda>p q. cmp (fst p) (fst q))"
  unfolding consistentComparator_def by blast




lemma localeCompare_consistent: "consistentComparator localeCompare"
proof -
  let ?p = "\<lambda>a. map primaryWeight (collationElements a)"
  let ?t = "\<lambda>a. map tertiaryWeight (collationElements a)"
  have neg: "(localeCompare a b < 0) = (?p a < ?p b \<or> ?p a = ?p b \<and> ?t a < ?t b)" for a b
    by (auto simp: localeCompare_def Let_def)
  have pos: "(localeCompare a b > 0) = (?p b < ?p a \<or> ?p a = ?p b \<and> ?t b < ?t a)" for a b
    by (auto simp: localeCompare_def Let_def)
  have le: "(localeCompare a b \<le> 0) = (?p a < ?p b \<or> ?p a = ?p b \<and> ?t a \<le> ?t b)" for a b
    by (auto simp: localeCompare_def Let_def)
  have flip: "(localeCompare a b < 0) = (localeCompare b a > 0)" for a b
    unfolding neg pos by auto
  have trans: "localeCompare a c \<le> 0" if "localeCompare a b \<le> 0" "localeCompare b c \<le> 0" for a b c
    using that unfolding le by (auto intro: less_trans order_trans)
  show ?thesis unfolding consistentComparator_def using flip trans by blast
qed

lemmas cmp_eval = localeCompare_def collationElements_def ignorable_def primaryWeight_def
  tertiaryWeight_def toLower_def collationOrder_def

lemmas key_eval = filtered_def sortedEntries_def definedEntries_def sortBy_def
  entryToString_def valueToString_def safeNaturalToString_def natToString.simps


text \<open>
  The proviso on ties is where the insertion order shows: \<^verbatim>\<open>sort\<close> is stable, so two names
  for which the comparator returns 0 stay in the order \<^verbatim>\<open>Object.entries\<close> gave them.
\<close>

lemma sortedEntries_tie_keeps_order:
  assumes "cmp a b = 0" and "cmp b a = 0" and "x \<noteq> VUndefined" and "y \<noteq> VUndefined"
  shows "sortedEntries cmp [(a, x), (b, y)] = [(a, x), (b, y)] \<and>
         sortedEntries cmp [(b, y), (a, x)] = [(b, y), (a, x)]"
  using assms by (simp add: sortedEntries_def definedEntries_def sortBy_def)

text \<open>
  The digest on three byte strings: the test vector \<^verbatim>\<open>abc\<close> of FIPS 180-4, and the two
  strings hashed in the example that follows.
\<close>

lemma replicate_numeral: "replicate (numeral k) x = x # replicate (pred_numeral k) x"
  by (simp add: numeral_eq_Suc)

lemma blocks_numeral: "blocks (numeral k) ws = take 16 ws # blocks (pred_numeral k) (drop 16 ws)"
  by (simp add: numeral_eq_Suc)

lemmas sha_eval = sha256hex_def sha256_def pad_def be64_def compress_def
  hex32_def K256_def H256_def bsig0_def bsig1_def ssig0_def ssig1_def
  Ch_def Maj_def rotr_def shr_def not32_def add32_def replicate_numeral blocks_numeral

lemma sha256hex_abc:
  "sha256hex ''abc'' = ''ba7816bf8f01cfea414140de5dae2223b00361a396177a9cb410ff61f20015ad''"
  by (simp add: sha_eval)




lemma sorted_wrt_index:
  assumes "consistentComparator c" "sorted_wrt (\<lambda>a b. c a b \<le> 0) es"
    "i < length es" "j < length es" "c (es ! i) (es ! j) < 0"
  shows "i < j"
proof (rule ccontr)
  assume "\<not> i < j"
  then consider "j = i" | "j < i" by linarith
  then show False
  proof cases
    case 1
    then show ?thesis using assms(1,5) unfolding consistentComparator_def by (metis less_asym)
  next
    case 2
    then have "c (es ! j) (es ! i) \<le> 0" using assms(2,3) by (simp add: sorted_wrt_iff_nth_less)
    moreover have "c (es ! j) (es ! i) > 0"
      using assms(1,5) unfolding consistentComparator_def by blast
    ultimately show ?thesis by simp
  qed
qed

text \<open>
  \<^bold>\<open>C2\<close>, as amended. The string hashed is the \<^verbatim>\<open>name=value\<close> pairs of the defined
  entries joined by \<^verbatim>\<open>&\<close>, each value as a template literal prints it (a number through
  \<^verbatim>\<open>Number::toString\<close>, booleans as \<^verbatim>\<open>true\<close> and \<^verbatim>\<open>false\<close>, strings verbatim), in
  the order of the comparator handed to \<^verbatim>\<open>sort\<close>, which is \<^verbatim>\<open>localeCompare\<close>: the
  sorted entries are a permutation of the defined ones, ascending for the comparator, and of
  two defined names the one the comparator puts strictly first comes first.
\<close>

theorem filtered_sorted_by_comparator:
  assumes "consistentComparator cmp"
  shows "filtered numberToString cmp ps =
           joinWith ''&'' (map (entryToString numberToString) (sortedEntries cmp ps)) \<and>
         mset (sortedEntries cmp ps) = mset (filter (\<lambda>p. snd p \<noteq> VUndefined) ps) \<and>
         sorted_wrt (\<lambda>p q. cmp (fst p) (fst q) \<le> 0) (sortedEntries cmp ps) \<and>
         (\<forall>i j. i < length (sortedEntries cmp ps) \<and> j < length (sortedEntries cmp ps) \<and>
                cmp (fst (sortedEntries cmp ps ! i)) (fst (sortedEntries cmp ps ! j)) < 0
                \<longrightarrow> i < j) \<and>
         entryToString numberToString (k, VString s) = k @ ''='' @ s \<and>
         entryToString numberToString (k, VNumber n) = k @ ''='' @ numberToString n \<and>
         entryToString numberToString (k, VBoolean True) = k @ ''=true'' \<and>
         entryToString numberToString (k, VBoolean False) = k @ ''=false''"
proof -
  let ?c = "\<lambda>p q. cmp (fst p) (fst q)"
  have c: "consistentComparator ?c" using assms by (rule entry_comparator)
  have s: "sorted_wrt (\<lambda>p q. ?c p q \<le> 0) (sortedEntries cmp ps)"
    unfolding sortedEntries_def using c by (rule sortBy_sorted)
  have idx: "i < j"
    if "i < length (sortedEntries cmp ps)" "j < length (sortedEntries cmp ps)"
       "cmp (fst (sortedEntries cmp ps ! i)) (fst (sortedEntries cmp ps ! j)) < 0" for i j
    using sorted_wrt_index [OF c s that(1,2)] that(3) by simp
  have m: "mset (sortedEntries cmp ps) = mset (filter (\<lambda>p. snd p \<noteq> VUndefined) ps)"
    by (simp add: sortedEntries_def definedEntries_def sortBy_mset)
  show ?thesis
    using s idx m by (simp add: filtered_def entryToString_def valueToString_def)
qed

text \<open>An instance with a string holding \<^verbatim>\<open>&\<close> and \<^verbatim>\<open>=\<close>, a boolean and two numbers.\<close>

theorem filtered_sorted_by_comparator_witness:
  "consistentComparator localeCompare \<and>
   filtered safeNaturalToString localeCompare
     [(''w'', VNumber 800), (''url'', VString ''https://example.com/a.png?foo=bar&baz=qux''),
      (''h'', VUndefined), (''grayscale'', VBoolean True), (''Q'', VNumber 5)]
     = ''grayscale=true&Q=5&url=https://example.com/a.png?foo=bar&baz=qux&w=800'' \<and>
   sortedEntries localeCompare
     [(''w'', VNumber (800 :: safe_natural)),
      (''url'', VString ''https://example.com/a.png?foo=bar&baz=qux''),
      (''h'', VUndefined), (''grayscale'', VBoolean True), (''Q'', VNumber 5)]
     = [(''grayscale'', VBoolean True), (''Q'', VNumber 5),
        (''url'', VString ''https://example.com/a.png?foo=bar&baz=qux''), (''w'', VNumber 800)]"
proof -
  let ?ps = "[(''w'', VNumber (800 :: safe_natural)),
      (''url'', VString ''https://example.com/a.png?foo=bar&baz=qux''),
      (''h'', VUndefined), (''grayscale'', VBoolean True), (''Q'', VNumber 5)]"
  have se: "sortedEntries localeCompare ?ps
     = [(''grayscale'', VBoolean True), (''Q'', VNumber 5),
        (''url'', VString ''https://example.com/a.png?foo=bar&baz=qux''), (''w'', VNumber 800)]"
    by (simp add: sortedEntries_def definedEntries_def sortBy_def cmp_eval)
  have n: "safeNaturalToString 800 = ''800''" "safeNaturalToString 5 = ''5''"
    by (simp_all add: safeNaturalToString_def natToString.simps)
  note t = filtered_sorted_by_comparator [OF localeCompare_consistent,
      where ps = ?ps and numberToString = safeNaturalToString]
  have "filtered safeNaturalToString localeCompare ?ps =
      ''grayscale=true&Q=5&url=https://example.com/a.png?foo=bar&baz=qux&w=800''"
    using t [THEN conjunct1] unfolding se by (simp add: entryToString_def valueToString_def n)
  then show ?thesis using localeCompare_consistent se by simp
qed

text \<open>
  The claim as it stands, names in ascending byte order, fails for the names \<^verbatim>\<open>B\<close> and
  \<^verbatim>\<open>a\<close>: \<^verbatim>\<open>B\<close> is the smaller byte string, and \<^verbatim>\<open>localeCompare\<close> puts \<^verbatim>\<open>a\<close> first.
\<close>

theorem filtered_not_bytewise_counterexample:
  "(''B'' :: string) < ''a'' \<and>
   definedEntries [(''B'', VNumber (1 :: safe_natural)), (''a'', VNumber 2)] =
     [(''B'', VNumber 1), (''a'', VNumber 2)] \<and>
   sortedEntries localeCompare [(''B'', VNumber (1 :: safe_natural)), (''a'', VNumber 2)] =
     [(''a'', VNumber 2), (''B'', VNumber 1)] \<and>
   filtered safeNaturalToString localeCompare [(''B'', VNumber 1), (''a'', VNumber 2)] = ''a=2&B=1''"
  by (simp add: key_eval cmp_eval)

subsection \<open>The disk backend and its sweep\<close>

text \<open>
  The path of a key. \<^verbatim>\<open>join\<close> normalises the cache directory and leaves the shard and
  the key, which hold no \<^verbatim>\<open>/\<close> and no \<^verbatim>\<open>.\<close>, as the last two segments.
\<close>

lemma splitOn_append:
  "splitOn c (a @ c # b) = splitOn c a @ splitOn c b"
proof (induction a)
  case Nil
  show ?case by simp
next
  case (Cons x a)
  have ne: "splitOn c a \<noteq> []" by (cases a) (auto split: list.splits)
  show ?case using Cons ne by (cases "splitOn c a") (auto split: list.splits)
qed

lemma splitOn_plain: "c \<notin> set s \<Longrightarrow> splitOn c s = [s]"
  by (induction s) auto

lemma normalizeString_append:
  "normalizeString up (xs @ ys) res = normalizeString up ys (rev (normalizeString up xs res))"
  by (induction up xs res rule: normalizeString.induct) auto

lemma joinWith_snoc_nonempty: "k \<noteq> [] \<Longrightarrow> joinWith sep (xs @ [k]) \<noteq> []"
  by (induction sep xs rule: joinWith.induct) auto

lemma getCachePath_shape:
  assumes root: "cacheDir cfg \<noteq> []"
    and key: "key \<noteq> []" "CHR ''/'' \<notin> set key" "CHR ''.'' \<notin> set key"
  shows "getCachePath cfg key =
           (if isAbsolute (cacheDir cfg) then ''/'' else []) @
           joinWith ''/'' (pathSegments (cacheDir cfg) @ [take 2 key, key])"
proof -
  let ?root = "cacheDir cfg"
  let ?shard = "take 2 key"
  let ?P = "?root @ CHR ''/'' # ?shard @ CHR ''/'' # key"
  have sh: "?shard \<noteq> []" "CHR ''/'' \<notin> set ?shard" "CHR ''.'' \<notin> set ?shard"
    using key by (auto dest: in_set_takeD)
  have plain: "s \<noteq> ''.''" "s \<noteq> ''..''" if "CHR ''.'' \<notin> set s" for s
    using that by auto
  have j: "join [?root, ?shard, key] = normalize ?P"
    using root key(1) sh(1) by (simp add: join_def)
  have ab: "isAbsolute ?P = isAbsolute ?root" using root by (cases ?root) (simp_all add: isAbsolute_def)
  have sp: "splitOn CHR ''/'' ?P = splitOn CHR ''/'' ?root @ [?shard, key]"
    using splitOn_append [of "CHR ''/''" ?root "?shard @ CHR ''/'' # key"]
      splitOn_append [of "CHR ''/''" ?shard key] splitOn_plain [OF key(2)] splitOn_plain [OF sh(2)]
    by simp
  have ns: "normalizeString up (splitOn CHR ''/'' ?P) [] =
      normalizeString up (splitOn CHR ''/'' ?root) [] @ [?shard, key]" for up
    unfolding sp normalizeString_append
    using key(1) sh(1) plain [OF key(3)] plain [OF sh(3)] by simp
  have segs: "normalizeString (\<not> isAbsolute ?P) (splitOn CHR ''/'' ?P) [] =
      pathSegments ?root @ [?shard, key]"
    unfolding ns ab pathSegments_def ..
  have lastP: "last ?P = last key" using key(1) by simp
  have "last key \<in> set key" using key(1) by simp
  then have nt: "last ?P \<noteq> CHR ''/''" using key(2) lastP by metis
  have ne: "joinWith ''/'' (pathSegments ?root @ [?shard, key]) \<noteq> []"
    using joinWith_snoc_nonempty [OF key(1), of "''/''" "pathSegments ?root @ [?shard]"] by simp
  have "normalize ?P = (if isAbsolute ?root then ''/'' else []) @
           joinWith ''/'' (pathSegments ?root @ [?shard, key])"
    using nt ne by (simp add: normalize_def ns pathSegments_def Let_def ab)
  then show ?thesis by (simp add: getCachePath_def j)
qed

text \<open>
  \<^bold>\<open>C6.\<close> When the write succeeds, \<^verbatim>\<open>setDiskCache\<close> stores the bytes in the file
  whose path is \<^verbatim>\<open>join(cacheDir, shard, key)\<close>, the shard being the first two characters of
  the key; for a key without \<^verbatim>\<open>/\<close> and \<^verbatim>\<open>.\<close>, as a hex digest is, that path is the
  segments of the cache directory followed by the shard and the key. A \<^verbatim>\<open>getDiskCached\<close>
  of the same key on the resulting files, at a time when the age of the file is below the
  TTL, returns exactly the bytes written.
\<close>

theorem disk_round_trip:
  assumes "writeOk h (getCachePath cfg key)" and "readOk h (getCachePath cfg key)"
    and "now' - now < cacheTTL cfg * 1000"
  shows "getCachePath cfg key = join [cacheDir cfg, take 2 key, key] \<and>
         (cacheDir cfg \<noteq> [] \<and> key \<noteq> [] \<and> CHR ''/'' \<notin> set key \<and> CHR ''.'' \<notin> set key \<longrightarrow>
            getCachePath cfg key =
              (if isAbsolute (cacheDir cfg) then ''/'' else []) @
              joinWith ''/'' (pathSegments (cacheDir cfg) @ [take 2 key, key])) \<and>
         Map_get (getCachePath cfg key) (setDiskCache cfg h now key d fs)
           = Some \<lparr>content = d, mtime = now\<rparr> \<and>
         getDiskCached cfg h now' key (setDiskCache cfg h now key d fs)
           = (Some d, setDiskCache cfg h now key d fs)"
proof -
  have p: "getCachePath cfg key = join [cacheDir cfg, take 2 key, key]"
    by (simp add: getCachePath_def)
  have g: "Map_get (getCachePath cfg key) (setDiskCache cfg h now key d fs)
      = Some \<lparr>content = d, mtime = now\<rparr>"
    using assms(1) by (simp add: setDiskCache_def Map_get_set)
  have r: "getDiskCached cfg h now' key (setDiskCache cfg h now key d fs)
           = (Some d, setDiskCache cfg h now key d fs)"
    using assms(2,3) g by (simp add: getDiskCached_def)
  show ?thesis using p g r getCachePath_shape [of cfg key] by blast
qed

text \<open>
  An instance with the default configuration, one millisecond before the TTL runs out. The
  cache directory \<^verbatim>\<open>./cache\<close> is normalised by \<^verbatim>\<open>join\<close>, and the file is
  \<^verbatim>\<open>cache/ab/ab12cd\<close>.
\<close>

theorem disk_round_trip_witness:
  "writeOk gnuHost (getCachePath defaultConfig ''ab12cd'') \<and>
   readOk gnuHost (getCachePath defaultConfig ''ab12cd'') \<and>
   (86399999 :: int) - 0 < cacheTTL defaultConfig * 1000 \<and>
   (cacheDir defaultConfig \<noteq> [] \<and> ''ab12cd'' \<noteq> [] \<and> CHR ''/'' \<notin> set ''ab12cd'' \<and>
    CHR ''.'' \<notin> set ''ab12cd'') \<and>
   getCachePath defaultConfig ''ab12cd'' = ''cache/ab/ab12cd'' \<and>
   setDiskCache defaultConfig gnuHost 0 ''ab12cd'' [137, 80, 78, 71] []
     = [(''cache/ab/ab12cd'', \<lparr>content = [137, 80, 78, 71], mtime = 0\<rparr>)] \<and>
   getDiskCached defaultConfig gnuHost 86399999 ''ab12cd''
     (setDiskCache defaultConfig gnuHost 0 ''ab12cd'' [137, 80, 78, 71] [])
     = (Some [137, 80, 78, 71], [(''cache/ab/ab12cd'', \<lparr>content = [137, 80, 78, 71], mtime = 0\<rparr>)])"
proof -
  have w: "writeOk gnuHost (getCachePath defaultConfig ''ab12cd'')" by (simp add: gnuHost_def)
  have r: "readOk gnuHost (getCachePath defaultConfig ''ab12cd'')" by (simp add: gnuHost_def)
  have t: "(86399999 :: int) - 0 < cacheTTL defaultConfig * 1000" by (simp add: defaultConfig_def)
  have k: "cacheDir defaultConfig \<noteq> [] \<and> ''ab12cd'' \<noteq> [] \<and> CHR ''/'' \<notin> set ''ab12cd'' \<and>
    CHR ''.'' \<notin> set ''ab12cd''"
    by (simp add: defaultConfig_def)
  have sg: "(if isAbsolute (cacheDir defaultConfig) then ''/'' else []) @
      joinWith ''/'' (pathSegments (cacheDir defaultConfig) @ [take 2 ''ab12cd'', ''ab12cd''])
      = ''cache/ab/ab12cd''"
    by (simp add: isAbsolute_def pathSegments_def defaultConfig_def)
  note rt = disk_round_trip [OF w r t, where d = "[137, 80, 78, 71]" and fs = "[]"]
  have p: "getCachePath defaultConfig ''ab12cd'' = ''cache/ab/ab12cd''"
    using rt [THEN conjunct2, THEN conjunct1, THEN mp, OF k] unfolding sg .
  have s: "setDiskCache defaultConfig gnuHost 0 ''ab12cd'' [137, 80, 78, 71] []
      = [(''cache/ab/ab12cd'', \<lparr>content = [137, 80, 78, 71], mtime = 0\<rparr>)]"
    by (simp add: setDiskCache_def p gnuHost_def)
  have g: "getDiskCached defaultConfig gnuHost 86399999 ''ab12cd''
      (setDiskCache defaultConfig gnuHost 0 ''ab12cd'' [137, 80, 78, 71] [])
     = (Some [137, 80, 78, 71], [(''cache/ab/ab12cd'', \<lparr>content = [137, 80, 78, 71], mtime = 0\<rparr>)])"
    using rt [THEN conjunct2, THEN conjunct2, THEN conjunct2] unfolding s .
  show ?thesis by (intro conjI w r t p s g) (simp_all add: defaultConfig_def)
qed

lemma removeFiles_eq:
  "removeFiles h old n fs =
     (n + length (filter (rmOk h) old),
      filter (\<lambda>p. \<not> (fst p \<in> set old \<and> rmOk h (fst p))) fs)"
proof (induction old arbitrary: n fs)
  case Nil
  show ?case by simp
next
  case (Cons f old)
  have "filter (\<lambda>p. \<not> (fst p \<in> set old \<and> rmOk h (fst p))) (Map_delete f fs) =
        filter (\<lambda>p. \<not> (fst p \<in> set (f # old) \<and> rmOk h (fst p))) fs" if "rmOk h f"
    using that unfolding Map_delete_def by (auto intro: filter_cong)
  moreover have "filter (\<lambda>p. \<not> (fst p \<in> set old \<and> rmOk h (fst p))) fs =
        filter (\<lambda>p. \<not> (fst p \<in> set (f # old) \<and> rmOk h (fst p))) fs" if "\<not> rmOk h f"
    using that by (auto intro: filter_cong)
  ultimately show ?case by (simp add: Cons.IH)
qed

lemma count_filter_map_fst:
  "length (filter P (map fst (filter Q fs))) = length (filter (\<lambda>p. Q p \<and> P (fst p)) fs)"
  by (induction fs) auto

lemma findOld_member:
  assumes "distinct (Map_keys fs)" "p \<in> set fs"
  shows "fst p \<in> set (findOld h root n now fs) \<longleftrightarrow> findMatches h root n now p"
proof
  assume "fst p \<in> set (findOld h root n now fs)"
  then obtain q where q: "q \<in> set fs" "findMatches h root n now q" "fst q = fst p"
    by (auto simp: findOld_def)
  have "inj_on fst (set fs)" using assms(1) by (simp add: Map_keys_def distinct_map)
  then have "q = p" using q(1,3) assms(2) by (auto dest: inj_onD)
  then show "findMatches h root n now p" using q(2) by simp
next
  assume "findMatches h root n now p"
  then show "fst p \<in> set (findOld h root n now fs)" using assms(2) by (auto simp: findOld_def)
qed

text \<open>
  What the sweep does. In disk mode, when \<^verbatim>\<open>find\<close> runs, \<^verbatim>\<open>cleanupCache\<close> removes
  exactly the regular files under the cache root that pass \<^verbatim>\<open>-mmin +n\<close> for
  \<open>n = \<lfloor>cacheTTL / 60\<rfloor>\<close> and whose \<^verbatim>\<open>rm -f\<close> succeeds, leaves every other file, goes
  on after a failed \<^verbatim>\<open>rm\<close>, and returns the number of files removed. With GNU
  \<^verbatim>\<open>find\<close> and a TTL that is a multiple of 60 the files that pass are those modified
  before \<open>now - ttl\<close>.
\<close>

lemma disk_cleanup_sweeps_by_minutes:
  assumes "cacheMode cfg = disk" and "findOk h" and "distinct (Map_keys (files s))"
  shows "files (snd (cleanupCache cfg h now s)) =
           filter (\<lambda>p. \<not> (findMatches h (cacheDir cfg) (cacheTTL cfg div 60) now p \<and> rmOk h (fst p)))
                  (files s) \<and>
         fst (cleanupCache cfg h now s) =
           length (filter (\<lambda>p. findMatches h (cacheDir cfg) (cacheTTL cfg div 60) now p \<and> rmOk h (fst p))
                          (files s)) \<and>
         memoryCache (snd (cleanupCache cfg h now s)) = memoryCache s \<and>
         (mminPlus h = gnu_mminPlus \<and> cacheTTL cfg mod 60 = 0 \<longrightarrow>
            findMatches h (cacheDir cfg) (cacheTTL cfg div 60) now p =
              (under (cacheDir cfg) (fst p) \<and> mtime (snd p) < now - cacheTTL cfg * 1000))"
proof -
  let ?m = "findMatches h (cacheDir cfg) (cacheTTL cfg div 60) now"
  let ?old = "findOld h (cacheDir cfg) (cacheTTL cfg div 60) now (files s)"
  have c: "cleanupCache cfg h now s =
      (length (filter (rmOk h) ?old),
       s\<lparr>files := filter (\<lambda>p. \<not> (fst p \<in> set ?old \<and> rmOk h (fst p))) (files s)\<rparr>)"
    using assms(1,2) by (simp add: cleanupCache_def Let_def removeFiles_eq)
  have f: "filter (\<lambda>p. \<not> (fst p \<in> set ?old \<and> rmOk h (fst p))) (files s) =
           filter (\<lambda>p. \<not> (?m p \<and> rmOk h (fst p))) (files s)"
    using findOld_member [OF assms(3)] by (intro filter_cong) auto
  have n: "length (filter (rmOk h) ?old) = length (filter (\<lambda>p. ?m p \<and> rmOk h (fst p)) (files s))"
    by (simp only: findOld_def count_filter_map_fst)
  have g: "?m p = (under (cacheDir cfg) (fst p) \<and> mtime (snd p) < now - cacheTTL cfg * 1000)"
    if "mminPlus h = gnu_mminPlus" "cacheTTL cfg mod 60 = 0"
  proof -
    have "cacheTTL cfg div 60 * 60 = cacheTTL cfg"
      using div_mult_mod_eq [of "cacheTTL cfg" 60] that(2) by simp
    then have e: "cacheTTL cfg div 60 * 60000 = cacheTTL cfg * 1000" by linarith
    show ?thesis by (simp only: findMatches_def that(1) gnu_mminPlus_def e)
  qed
  show ?thesis using c f n g by simp
qed

text \<open>
  An instance with the default TTL: of two old files the one whose \<^verbatim>\<open>rm\<close> fails stays
  and is not counted, a file modified exactly at \<open>now - ttl\<close> stays, and so does a file
  outside the cache root.
\<close>

lemma disk_cleanup_sweep_example:
  "cleanupCache defaultConfig
     (gnuHost\<lparr>rmOk := (\<lambda>p. p \<noteq> ''cache/cd/cd34'')\<rparr>)
     100000000
     \<lparr>memoryCache = LRUCache_new 1000,
      files = [(''cache/cd/cd34'', \<lparr>content = [2], mtime = 0\<rparr>),
               (''cache/ab/ab12'', \<lparr>content = [1], mtime = 0\<rparr>),
               (''cache/ef/ef56'', \<lparr>content = [3], mtime = 13600000\<rparr>),
               (''fonts/inter.ttf'', \<lparr>content = [4], mtime = 0\<rparr>)]\<rparr>
   = (1, \<lparr>memoryCache = LRUCache_new 1000,
           files = [(''cache/cd/cd34'', \<lparr>content = [2], mtime = 0\<rparr>),
                    (''cache/ef/ef56'', \<lparr>content = [3], mtime = 13600000\<rparr>),
                    (''fonts/inter.ttf'', \<lparr>content = [4], mtime = 0\<rparr>)]\<rparr>)"
  by (simp add: cleanupCache_def findOld_def findMatches_def path_eval gnu_mminPlus_def
      gnuHost_def defaultConfig_def Map_delete_def)

text \<open>
  \<^bold>\<open>C7.\<close> The claim has the sweep delete the files older than \<open>now - ttl\<close> and no
  others. The threshold handed to \<^verbatim>\<open>find\<close> is \<^verbatim>\<open>Math.floor(cacheTTL / 60)\<close> minutes, so
  a TTL that is not a multiple of 60 seconds is cut down to the minute below. With a TTL of 90
  seconds and GNU \<^verbatim>\<open>find\<close>, a file 70 seconds old is newer than \<open>now - ttl\<close>,
  \<^verbatim>\<open>getDiskCached\<close> still serves it, and the sweep removes it. With a TTL of 59 seconds
  the threshold is 0 minutes and the sweep removes a file one second old.
\<close>

theorem disk_cleanup_removes_unexpired_file:
  "cacheTTL (defaultConfig\<lparr>cacheTTL := 90\<rparr>) = 90 \<and>
   \<not> (30000 :: int) < 100000 - 90 * 1000 \<and>
   getDiskCached (defaultConfig\<lparr>cacheTTL := 90\<rparr>) gnuHost 100000 ''ab12''
     [(''cache/ab/ab12'', \<lparr>content = [1], mtime = 30000\<rparr>)]
   = (Some [1], [(''cache/ab/ab12'', \<lparr>content = [1], mtime = 30000\<rparr>)]) \<and>
   cleanupCache (defaultConfig\<lparr>cacheTTL := 90\<rparr>) gnuHost 100000
     \<lparr>memoryCache = LRUCache_new 1000,
      files = [(''cache/ab/ab12'', \<lparr>content = [1], mtime = 30000\<rparr>)]\<rparr>
   = (1, \<lparr>memoryCache = LRUCache_new 1000, files = []\<rparr>) \<and>
   \<not> (99000 :: int) < 100000 - 59 * 1000 \<and>
   getDiskCached (defaultConfig\<lparr>cacheTTL := 59\<rparr>) gnuHost 100000 ''ab12''
     [(''cache/ab/ab12'', \<lparr>content = [1], mtime = 99000\<rparr>)]
   = (Some [1], [(''cache/ab/ab12'', \<lparr>content = [1], mtime = 99000\<rparr>)]) \<and>
   cleanupCache (defaultConfig\<lparr>cacheTTL := 59\<rparr>) gnuHost 100000
     \<lparr>memoryCache = LRUCache_new 1000,
      files = [(''cache/ab/ab12'', \<lparr>content = [1], mtime = 99000\<rparr>)]\<rparr>
   = (1, \<lparr>memoryCache = LRUCache_new 1000, files = []\<rparr>)"
  by (simp add: cleanupCache_def findOld_def findMatches_def path_eval gnu_mminPlus_def
      gnuHost_def defaultConfig_def Map_delete_def getDiskCached_def Map_get_def)

end
